theory Spec2Isabelle
  imports Main "HOL-Library.Word"
begin

section \<open>The MIME node and the store it lives in\<close>

text \<open>
  The Go program works on a graph of heap objects: every \<^verbatim>\<open>*MIME\<close> is a pointer,
  \<^verbatim>\<open>children []*MIME\<close> is a slice over a backing array, and \<^verbatim>\<open>params map[string]string\<close>
  is a reference to a map object. The embedding keeps the three kinds of objects in three
  stores; an address is an index into its store and allocation appends.
  A nil pointer, nil slice, nil map or nil function value is \<open>None\<close>.
  The \<^verbatim>\<open>aliases []string\<close> slice is kept by value: no statement of the program writes an
  element of an aliases array.
\<close>

type_synonym addr = nat
type_synonym bytes = "8 word list"
type_synonym Detector = "bytes \<Rightarrow> 32 word \<Rightarrow> bool"
type_synonym param_map = "string \<rightharpoonup> string"

record MIME =
  "typ" :: string
  aliases :: "string list"
  params :: "addr option"
  extension :: string
  detector :: "Detector option"
  children :: "addr option"
  parent :: "addr option"

record heap =
  mimes :: "MIME list"
  maps :: "param_map list"
  slices :: "addr list list"

text \<open>
  The run-time failures the program can raise: reading through a nil (or, in the model,
  unallocated) reference, which also covers calling a nil detector; assigning to an
  entry of a nil map; and unlocking a mutex that is not locked.
\<close>

datatype error = InvalidAddress | NilMapAssign | UnlockOfUnlockedMutex

text \<open>
  What the file imports and does not define: the three type constants of package
  \<^verbatim>\<open>types\<close>, the three functions of package \<^verbatim>\<open>charset\<close>, and the standard library's
  \<^verbatim>\<open>mime.ParseMediaType\<close>, whose three results are the media type, the parameter map
  (nil is \<open>None\<close>) and whether the error is non-nil.
\<close>

record externals =
  TEXT :: string
  HTML :: string
  XML :: string
  FromPlain :: "bytes \<Rightarrow> string"
  FromHTML :: "bytes \<Rightarrow> string"
  FromXML :: "bytes \<Rightarrow> string"
  ParseMediaType :: "string \<Rightarrow> string \<times> param_map option \<times> bool"

definition get_mime :: "heap \<Rightarrow> addr \<Rightarrow> error + MIME" where
  "get_mime h a = (if a < length (mimes h) then Inr (mimes h ! a) else Inl InvalidAddress)"

text \<open>Reading a slice or a map: the nil slice has no elements, the nil map no entries.\<close>

definition get_children :: "heap \<Rightarrow> MIME \<Rightarrow> error + addr list" where
  "get_children h node =
     (case children node of
        None \<Rightarrow> Inr []
      | Some s \<Rightarrow> if s < length (slices h) then Inr (slices h ! s) else Inl InvalidAddress)"

definition get_params :: "heap \<Rightarrow> MIME \<Rightarrow> error + param_map" where
  "get_params h node =
     (case params node of
        None \<Rightarrow> Inr Map.empty
      | Some r \<Rightarrow> if r < length (maps h) then Inr (maps h ! r) else Inl InvalidAddress)"

section \<open>Accessors\<close>

definition Type :: "heap \<Rightarrow> addr \<Rightarrow> error + string" where
  "Type h m = (case get_mime h m of Inl e \<Rightarrow> Inl e | Inr node \<Rightarrow> Inr (typ node))"

definition Extension :: "heap \<Rightarrow> addr \<Rightarrow> error + string" where
  "Extension h m = (case get_mime h m of Inl e \<Rightarrow> Inl e | Inr node \<Rightarrow> Inr (extension node))"

definition Parent :: "heap \<Rightarrow> addr \<Rightarrow> error + addr option" where
  "Parent h m = (case get_mime h m of Inl e \<Rightarrow> Inl e | Inr node \<Rightarrow> Inr (parent node))"

text \<open>The parameters a node shows to a reader (what \<^verbatim>\<open>String\<close> formats).\<close>

definition Params :: "heap \<Rightarrow> addr \<Rightarrow> error + param_map" where
  "Params h m = (case get_mime h m of Inl e \<Rightarrow> Inl e | Inr node \<Rightarrow> get_params h node)"

section \<open>Is\<close>

text \<open>The loop over \<^verbatim>\<open>m.aliases\<close> in \<^verbatim>\<open>Is\<close>.\<close>

fun alias_loop :: "string list \<Rightarrow> string \<Rightarrow> bool" where
  "alias_loop [] expectedMIME = False"
| "alias_loop (alias # rest) expectedMIME =
     (if alias = expectedMIME then True else alias_loop rest expectedMIME)"

text \<open>
  \<^verbatim>\<open>expectedMIME, _, _ = mime.ParseMediaType(expectedMIME)\<close>: the variable is overwritten
  with the parser's first result, the other two results are dropped.
\<close>

definition Is :: "externals \<Rightarrow> MIME \<Rightarrow> string \<Rightarrow> bool" where
  "Is E m expectedMIME =
     (let expectedMIME' = fst (ParseMediaType E expectedMIME)
      in if expectedMIME' = typ m then True else alias_loop (aliases m) expectedMIME')"

section \<open>clone and cloneHierarchy\<close>

text \<open>
  \<^verbatim>\<open>clone\<close> allocates a map and a node. The two range loops copy first the node's own
  entries, then those of \<open>ps\<close>, into the new map, so a later key overwrites an earlier one.
  A nil \<open>ps\<close> (as passed for the ancestors) contributes nothing.
\<close>

definition overlay :: "param_map option \<Rightarrow> param_map" where
  "overlay ps = (case ps of None \<Rightarrow> Map.empty | Some q \<Rightarrow> q)"

definition clone :: "heap \<Rightarrow> addr \<Rightarrow> param_map option \<Rightarrow> error + addr \<times> heap" where
  "clone h m ps =
     (case get_mime h m of
        Inl e \<Rightarrow> Inl e
      | Inr node \<Rightarrow>
         (case get_params h node of
            Inl e \<Rightarrow> Inl e
          | Inr own \<Rightarrow>
              let clonedMIME = \<lparr>typ = typ node, aliases = aliases node,
                                params = Some (length (maps h)), extension = extension node,
                                detector = None, children = None, parent = None\<rparr>
              in Inr (length (mimes h),
                      h\<lparr>mimes := mimes h @ [clonedMIME],
                        maps := maps h @ [(Map.empty ++ own) ++ overlay ps]\<rparr>)))"

definition set_parent :: "heap \<Rightarrow> addr \<Rightarrow> addr option \<Rightarrow> error + heap" where
  "set_parent h a p =
     (case get_mime h a of
        Inl e \<Rightarrow> Inl e
      | Inr node \<Rightarrow> Inr (h\<lparr>mimes := (mimes h)[a := node\<lparr>parent := p\<rparr>]\<rparr>))"

text \<open>
  The loop of \<^verbatim>\<open>cloneHierarchy\<close>, with its two variables \<open>lastChild\<close> and \<open>p\<close>. It follows
  parent pointers until nil, so on a cyclic chain it does not return: \<open>None\<close>.
\<close>

partial_function (option) clone_loop ::
  "heap \<Rightarrow> addr \<Rightarrow> addr option \<Rightarrow> (error + heap) option" where
  "clone_loop h lastChild p =
     (case p of
        None \<Rightarrow> Some (Inr h)
      | Some pa \<Rightarrow>
         (case clone h pa None of
            Inl e \<Rightarrow> Some (Inl e)
          | Inr (pClone, h1) \<Rightarrow>
             (case set_parent h1 lastChild (Some pClone) of
                Inl e \<Rightarrow> Some (Inl e)
              | Inr h2 \<Rightarrow>
                 (case Parent h2 pa of
                    Inl e \<Rightarrow> Some (Inl e)
                  | Inr p' \<Rightarrow> clone_loop h2 pClone p'))))"

definition cloneHierarchy ::
  "heap \<Rightarrow> addr \<Rightarrow> param_map option \<Rightarrow> (error + addr \<times> heap) option" where
  "cloneHierarchy h m ps =
     (case clone h m ps of
        Inl e \<Rightarrow> Some (Inl e)
      | Inr (ret, h1) \<Rightarrow>
         (case Parent h1 m of
            Inl e \<Rightarrow> Some (Inl e)
          | Inr p \<Rightarrow>
             (case clone_loop h1 ret p of
                None \<Rightarrow> None
              | Some (Inl e) \<Rightarrow> Some (Inl e)
              | Some (Inr h2) \<Rightarrow> Some (Inr (ret, h2)))))"

section \<open>newMIME and alias\<close>

text \<open>The loop of \<^verbatim>\<open>newMIME\<close> that makes the new node the parent of each child.\<close>

fun set_parents :: "heap \<Rightarrow> addr list \<Rightarrow> addr \<Rightarrow> error + heap" where
  "set_parents h [] m = Inr h"
| "set_parents h (c # cs) m =
     (case set_parent h c (Some m) of
        Inl e \<Rightarrow> Inl e
      | Inr h' \<Rightarrow> set_parents h' cs m)"

text \<open>
  \<^verbatim>\<open>newMIME\<close> allocates an empty map and the node; the variadic \<open>children\<close> are a new
  slice, nil when there are none. The children exist before the call: one that is not
  allocated in the store the call starts from is the panic of writing \<^verbatim>\<open>c.parent\<close>
  through nil.
\<close>

definition newMIME ::
  "heap \<Rightarrow> string \<Rightarrow> string \<Rightarrow> Detector option \<Rightarrow> addr list \<Rightarrow> error + addr \<times> heap" where
  "newMIME h ty ext det cs =
     (let h1 = (if cs = [] then h else h\<lparr>slices := slices h @ [cs]\<rparr>);
          m = \<lparr>typ = ty, aliases = [], params = Some (length (maps h)), extension = ext,
               detector = det,
               children = (if cs = [] then None else Some (length (slices h))),
               parent = None\<rparr>;
          h2 = h1\<lparr>mimes := mimes h1 @ [m], maps := maps h1 @ [Map.empty]\<rparr>
      in if list_all (\<lambda>c. c < length (mimes h)) cs
         then (case set_parents h2 cs (length (mimes h)) of
                 Inl e \<Rightarrow> Inl e
               | Inr h3 \<Rightarrow> Inr (length (mimes h), h3))
         else Inl InvalidAddress)"

text \<open>\<^verbatim>\<open>alias\<close> replaces the aliases of \<open>m\<close> and returns \<open>m\<close>.\<close>

definition alias_mime :: "heap \<Rightarrow> addr \<Rightarrow> string list \<Rightarrow> error + addr \<times> heap" where
  "alias_mime h m als =
     (case get_mime h m of
        Inl e \<Rightarrow> Inl e
      | Inr node \<Rightarrow> Inr (m, h\<lparr>mimes := (mimes h)[m := node\<lparr>aliases := als\<rparr>]\<rparr>))"

section \<open>match\<close>

text \<open>
  The range loop over \<^verbatim>\<open>m.children\<close>: the first child whose detector accepts, if any.
  Calling a nil detector panics.
\<close>

fun range_children :: "heap \<Rightarrow> bytes \<Rightarrow> 32 word \<Rightarrow> addr list \<Rightarrow> error + addr option" where
  "range_children h inp readLimit [] = Inr None"
| "range_children h inp readLimit (c # cs) =
     (case get_mime h c of
        Inl e \<Rightarrow> Inl e
      | Inr cnode \<Rightarrow>
         (case detector cnode of
            None \<Rightarrow> Inl InvalidAddress
          | Some d \<Rightarrow> if d inp readLimit then Inr (Some c)
                      else range_children h inp readLimit cs))"

definition needsCharset :: "externals \<Rightarrow> string \<rightharpoonup> (bytes \<Rightarrow> string)" where
  "needsCharset E = [TEXT E \<mapsto> FromPlain E, HTML E \<mapsto> FromHTML E, XML E \<mapsto> FromXML E]"

text \<open>The map \<open>ps\<close> that \<^verbatim>\<open>match\<close> builds for a terminal node of type \<open>t\<close>.\<close>

definition optional_params :: "externals \<Rightarrow> string \<Rightarrow> bytes \<Rightarrow> param_map" where
  "optional_params E t inp =
     (case needsCharset E t of
        None \<Rightarrow> Map.empty
      | Some f \<Rightarrow> (let cset = f inp in if cset \<noteq> [] then [''charset'' \<mapsto> cset] else Map.empty))"

partial_function (option) match ::
  "externals \<Rightarrow> heap \<Rightarrow> addr \<Rightarrow> bytes \<Rightarrow> 32 word \<Rightarrow> (error + addr \<times> heap) option" where
  "match E h m inp readLimit =
     (case get_mime h m of
        Inl e \<Rightarrow> Some (Inl e)
      | Inr node \<Rightarrow>
         (case get_children h node of
            Inl e \<Rightarrow> Some (Inl e)
          | Inr cs \<Rightarrow>
             (case range_children h inp readLimit cs of
                Inl e \<Rightarrow> Some (Inl e)
              | Inr (Some c) \<Rightarrow> match E h c inp readLimit
              | Inr None \<Rightarrow> cloneHierarchy h m (Some (optional_params E (typ node) inp)))))"

section \<open>Extend\<close>

text \<open>
  \<^verbatim>\<open>Extend\<close> has no result value: the model returns the new store, or the panic of reading
  \<^verbatim>\<open>m.children\<close> through a receiver that is not allocated. The receiver exists before the
  call, so it is looked up in the store the call starts from. The parser's map, when not
  nil, is a new map object; the one-element slice literal and \<^verbatim>\<open>append\<close> produce a new
  backing array holding \<open>c\<close> followed by the old children, and only the slice header in
  \<open>m\<close> is written. \<open>Extend\<close> is what the call does to the store when it finds the
  package's mutex free; \<open>Extend_mu\<close> below is the same call with the mutex in the state.
\<close>

definition Extend ::
  "externals \<Rightarrow> heap \<Rightarrow> addr \<Rightarrow> Detector option \<Rightarrow> string \<Rightarrow> string \<Rightarrow> string list \<Rightarrow> error + heap" where
  "Extend E h m det mimestr ext als =
     (case ParseMediaType E mimestr of
        (t, ps, err) \<Rightarrow>
          let h1 = (case ps of None \<Rightarrow> h | Some q \<Rightarrow> h\<lparr>maps := maps h @ [q]\<rparr>);
              c = \<lparr>typ = t, aliases = als,
                   params = (case ps of None \<Rightarrow> None | Some q \<Rightarrow> Some (length (maps h))),
                   extension = ext, detector = det, children = None, parent = Some m\<rparr>;
              h2 = h1\<lparr>mimes := mimes h1 @ [c]\<rparr>
          in (case get_mime h m of
                Inl e \<Rightarrow> Inl e
              | Inr node \<Rightarrow>
                 (case get_children h2 node of
                    Inl e \<Rightarrow> Inl e
                  | Inr old \<Rightarrow>
                      Inr (h2\<lparr>slices := slices h2 @ [length (mimes h1) # old],
                              mimes := (mimes h2)[m := node\<lparr>children := Some (length (slices h2))\<rparr>]\<rparr>))))"





text \<open>
  A caller inside the package changing a parameter of a node it holds:
  \<^verbatim>\<open>m.params[key] = value\<close>.
\<close>

definition set_param :: "heap \<Rightarrow> addr \<Rightarrow> string \<Rightarrow> string \<Rightarrow> error + heap" where
  "set_param h m key v =
     (case get_mime h m of
        Inl e \<Rightarrow> Inl e
      | Inr node \<Rightarrow>
         (case params node of
            None \<Rightarrow> Inl NilMapAssign
          | Some r \<Rightarrow>
              if r < length (maps h) then Inr (h\<lparr>maps := (maps h)[r := (maps h ! r)(key \<mapsto> v)]\<rparr>)
              else Inl InvalidAddress))"

section \<open>Notions used to state the properties\<close>

text \<open>
  \<open>ancestry h p as\<close>: following parent pointers from \<open>p\<close> visits exactly the allocated
  nodes \<open>as\<close>, in this order, and then reaches nil. Each of them has a readable parameter
  map.
\<close>

inductive ancestry :: "heap \<Rightarrow> addr option \<Rightarrow> addr list \<Rightarrow> bool" where
  top: "ancestry h None []"
| up: "get_mime h a = Inr node \<Longrightarrow> get_params h node = Inr own \<Longrightarrow>
       ancestry h (parent node) as \<Longrightarrow> ancestry h (Some a) (a # as)"

text \<open>
  The clones of a chain of nodes, as they lie in the store: the first at address \<open>n\<close> with
  map \<open>k\<close>, each pointing to the next as its parent, the last with a nil parent.
\<close>

fun clone_nodes :: "MIME list \<Rightarrow> addr \<Rightarrow> addr \<Rightarrow> MIME list" where
  "clone_nodes [] n k = []"
| "clone_nodes (x # xs) n k =
     \<lparr>typ = typ x, aliases = aliases x, params = Some k, extension = extension x,
      detector = None, children = None,
      parent = (if xs = [] then None else Some (Suc n))\<rparr> # clone_nodes xs (Suc n) (Suc k)"

text \<open>The parameters node \<open>a\<close> was constructed with.\<close>

definition own_params :: "heap \<Rightarrow> addr \<Rightarrow> param_map" where
  "own_params h a = (case Params h a of Inl e \<Rightarrow> Map.empty | Inr q \<Rightarrow> q)"

text \<open>
  A child accepts, or rejects, the input when it is allocated, has a detector, and the
  detector says so.
\<close>

definition accepts :: "heap \<Rightarrow> bytes \<Rightarrow> 32 word \<Rightarrow> addr \<Rightarrow> bool" where
  "accepts h inp readLimit c =
     (case get_mime h c of
        Inl e \<Rightarrow> False
      | Inr cnode \<Rightarrow> (case detector cnode of None \<Rightarrow> False | Some d \<Rightarrow> d inp readLimit))"

definition rejects :: "heap \<Rightarrow> bytes \<Rightarrow> 32 word \<Rightarrow> addr \<Rightarrow> bool" where
  "rejects h inp readLimit c =
     (case get_mime h c of
        Inl e \<Rightarrow> False
      | Inr cnode \<Rightarrow> (case detector cnode of None \<Rightarrow> False | Some d \<Rightarrow> \<not> d inp readLimit))"

text \<open>
  What the specification calls the first-match descent, in its words: at a node whose
  children all reject, the node is the terminal match; otherwise the first child that
  accepts, all children before it having rejected, is descended into. The node's own
  detector is not consulted, and the children after the accepting one are not looked at.
\<close>

inductive terminal :: "heap \<Rightarrow> bytes \<Rightarrow> 32 word \<Rightarrow> addr \<Rightarrow> addr \<Rightarrow> bool" where
  stay: "get_mime h m = Inr node \<Longrightarrow> get_children h node = Inr cs \<Longrightarrow>
         \<forall>c\<in>set cs. rejects h inp readLimit c \<Longrightarrow> terminal h inp readLimit m m"
| descend: "get_mime h m = Inr node \<Longrightarrow> get_children h node = Inr (pre @ c # post) \<Longrightarrow>
         \<forall>x\<in>set pre. rejects h inp readLimit x \<Longrightarrow> accepts h inp readLimit c \<Longrightarrow>
         terminal h inp readLimit c t \<Longrightarrow> terminal h inp readLimit m t"

text \<open>
  The tree the program matches against is built in a file that is not part of the sources
  at hand, so it is a parameter: any store and root such that \<open>canonical h None root\<close>.
  \<open>canonical h p m\<close> says that \<open>m\<close> is the root of a finite tree as \<^verbatim>\<open>newMIME\<close> and
  \<^verbatim>\<open>Extend\<close> build them: \<open>m\<close> is allocated, its parent pointer is \<open>p\<close>, its map and its
  children list are readable, and every child is such a tree with parent \<open>m\<close> and has a
  detector.
\<close>

inductive canonical :: "heap \<Rightarrow> addr option \<Rightarrow> addr \<Rightarrow> bool" where
  node: "get_mime h m = Inr node \<Longrightarrow> parent node = p \<Longrightarrow> get_params h node = Inr own \<Longrightarrow>
         get_children h node = Inr cs \<Longrightarrow>
         \<forall>c\<in>set cs. canonical h (Some m) c \<and> detector (mimes h ! c) \<noteq> None \<Longrightarrow>
         canonical h p m"

text \<open>The store in which node \<open>a\<close> has detector \<open>d\<close> and everything else is as in \<open>h\<close>.\<close>

definition with_detector :: "heap \<Rightarrow> addr \<Rightarrow> Detector option \<Rightarrow> heap" where
  "with_detector h a d = h\<lparr>mimes := (mimes h)[a := (mimes h ! a)\<lparr>detector := d\<rparr>]\<rparr>"

text \<open>
  The store after the nodes of \<open>chain\<close> (a node followed by its ancestors) have been
  cloned, the optional parameters \<open>ps\<close> going to the first clone only.
\<close>

definition with_clones :: "heap \<Rightarrow> addr list \<Rightarrow> param_map \<Rightarrow> heap" where
  "with_clones h chain ps =
     h\<lparr>mimes := mimes h @ clone_nodes (map (\<lambda>a. mimes h ! a) chain) (length (mimes h)) (length (maps h)),
       maps := maps h @ (case chain of [] \<Rightarrow> []
                         | t # ts \<Rightarrow> (own_params h t ++ ps) # map (own_params h) ts)\<rparr>"

text \<open>\<open>h'\<close> has every object of \<open>h\<close>, unchanged, and possibly more.\<close>

definition extends :: "heap \<Rightarrow> heap \<Rightarrow> bool" where
  "extends h h' =
     ((\<exists>xs. mimes h' = mimes h @ xs) \<and> (\<exists>ys. maps h' = maps h @ ys)
      \<and> (\<exists>zs. slices h' = slices h @ zs))"

text \<open>
  What a caller can see of the outcome of a match: the type, aliases, parameters and
  extension of the returned node.
\<close>

definition observe ::
  "(error + addr \<times> heap) option \<Rightarrow> (string \<times> string list \<times> param_map \<times> string) option" where
  "observe x =
     (case x of
        Some (Inr (r, h')) \<Rightarrow>
          (case (get_mime h' r, Params h' r) of
             (Inr node, Inr q) \<Rightarrow> Some (typ node, aliases node, q, extension node)
           | _ \<Rightarrow> None)
      | _ \<Rightarrow> None)"

section \<open>A small instance\<close>

text \<open>
  Stand-ins for the imported parts, used to run the definitions on concrete inputs.
  \<open>demo_parse\<close> tabulates what \<^verbatim>\<open>mime.ParseMediaType\<close> returns on the strings the
  examples pass to it: the lower-cased, trimmed media type with a non-nil map on success;
  the media type, a nil map and an error when only a parameter is malformed
  (\<^verbatim>\<open>"text/plain; charset"\<close>); the empty string, a nil map and an error when the
  string has no media type (\<^verbatim>\<open>"not a media type"\<close>). A string outside the table is
  treated like the last.
\<close>

definition demo_parse :: "string \<Rightarrow> string \<times> param_map option \<times> bool" where
  "demo_parse v =
     (if v = ''text/html; charset=UTF-8'' then (''text/html'', Some [''charset'' \<mapsto> ''UTF-8''], False)
      else if v = '' text/plain ; charset=ISO-8859-1''
        then (''text/plain'', Some [''charset'' \<mapsto> ''ISO-8859-1''], False)
      else if v = ''application/x-demo; charset=utf-16''
        then (''application/x-demo'', Some [''charset'' \<mapsto> ''utf-16''], False)
      else if v = ''text/plain'' then (''text/plain'', Some Map.empty, False)
      else if v = ''text/x-demo'' then (''text/x-demo'', Some Map.empty, False)
      else if v = ''text/plain; charset'' then (''text/plain'', None, True)
      else if v = ''not a media type'' then ([], None, True)
      else ([], None, True))"

definition demo_env :: externals where
  "demo_env =
     \<lparr>TEXT = ''text/plain'', HTML = ''text/html'', XML = ''text/xml'',
      FromPlain = (\<lambda>b. if b = [] then [] else ''utf-8''),
      FromHTML = (\<lambda>b. if length b < 2 then [] else ''iso-8859-1''),
      FromXML = (\<lambda>b. []),
      ParseMediaType = demo_parse\<rparr>"

text \<open>
  A tree of four nodes: the root, a first child whose detector always rejects, a second
  child \<^verbatim>\<open>text/plain\<close> whose detector always accepts, and under it \<^verbatim>\<open>text/html\<close>,
  accepting a buffer that starts with \<^verbatim>\<open><\<close>.
\<close>

definition demo_heap :: heap where
  "demo_heap =
     \<lparr>mimes =
        [\<lparr>typ = ''application/octet-stream'', aliases = [], params = Some 0, extension = [],
          detector = Some (\<lambda>b l. True), children = Some 0, parent = None\<rparr>,
         \<lparr>typ = ''application/x-never'', aliases = [], params = Some 1, extension = ''.nev'',
          detector = Some (\<lambda>b l. False), children = None, parent = Some 0\<rparr>,
         \<lparr>typ = ''text/plain'', aliases = [''text/x-plain''], params = Some 2, extension = ''.txt'',
          detector = Some (\<lambda>b l. True), children = Some 1, parent = Some 0\<rparr>,
         \<lparr>typ = ''text/html'', aliases = [], params = Some 3, extension = ''.html'',
          detector = Some (\<lambda>b l. take 1 b = [60]), children = None, parent = Some 2\<rparr>],
      maps = [Map.empty, Map.empty, Map.empty, Map.empty],
      slices = [[1, 2], [3]]\<rparr>"

text \<open>The same tree after registering a type whose string carries a charset.\<close>

definition charset_heap :: heap where
  "charset_heap =
     (case Extend demo_env demo_heap 0 (Some (\<lambda>b l. True))
             ''application/x-demo; charset=utf-16'' ''.demo'' [] of
        Inr h \<Rightarrow> h
      | Inl e \<Rightarrow> demo_heap)"

text \<open>The stores after a first match, of the empty buffer, and a second, of \<^verbatim>\<open><h\<close>.\<close>

definition demo_h1 :: heap where
  "demo_h1 = with_clones demo_heap [2, 0] (optional_params demo_env (typ (mimes demo_heap ! 2)) [])"

definition demo_h2 :: heap where
  "demo_h2 =
     with_clones demo_h1 [3, 2, 0] (optional_params demo_env (typ (mimes demo_h1 ! 3)) [60, 104])"

text \<open>
  The same tree built from the empty store the way the program builds its own:
  \<^verbatim>\<open>newMIME(root, newMIME(never), newMIME(plain, newMIME(html)).alias(...))\<close>, the arguments
  evaluated from left to right. \<open>built_heap\<close> is the store that comes out.
\<close>

definition built_tree :: "error + addr \<times> heap" where
  "built_tree =
     (case newMIME \<lparr>mimes = [], maps = [], slices = []\<rparr>
             ''application/x-never'' ''.nev'' (Some (\<lambda>b l. False)) [] of
        Inl e \<Rightarrow> Inl e
      | Inr (never, h1) \<Rightarrow>
     (case newMIME h1 ''text/html'' ''.html'' (Some (\<lambda>b l. take 1 b = [60])) [] of
        Inl e \<Rightarrow> Inl e
      | Inr (html, h2) \<Rightarrow>
     (case newMIME h2 ''text/plain'' ''.txt'' (Some (\<lambda>b l. True)) [html] of
        Inl e \<Rightarrow> Inl e
      | Inr (txt, h3) \<Rightarrow>
     (case alias_mime h3 txt [''text/x-plain''] of
        Inl e \<Rightarrow> Inl e
      | Inr (txt', h4) \<Rightarrow>
          newMIME h4 ''application/octet-stream'' [] (Some (\<lambda>b l. True)) [never, txt']))))"

definition built_heap :: heap where
  "built_heap =
     \<lparr>mimes =
        [\<lparr>typ = ''application/x-never'', aliases = [], params = Some 0, extension = ''.nev'',
          detector = Some (\<lambda>b l. False), children = None, parent = Some 3\<rparr>,
         \<lparr>typ = ''text/html'', aliases = [], params = Some 1, extension = ''.html'',
          detector = Some (\<lambda>b l. take 1 b = [60]), children = None, parent = Some 2\<rparr>,
         \<lparr>typ = ''text/plain'', aliases = [''text/x-plain''], params = Some 2, extension = ''.txt'',
          detector = Some (\<lambda>b l. True), children = Some 0, parent = Some 3\<rparr>,
         \<lparr>typ = ''application/octet-stream'', aliases = [], params = Some 3, extension = [],
          detector = Some (\<lambda>b l. True), children = Some 1, parent = None\<rparr>],
      maps = [Map.empty, Map.empty, Map.empty, Map.empty],
      slices = [[1], [0, 2]]\<rparr>"

definition plain_node :: MIME where
  "plain_node =
     \<lparr>typ = ''text/plain'', aliases = [''text/x-plain''], params = None, extension = ''.txt'',
      detector = None, children = None, parent = None\<rparr>"

section \<open>Running the instance\<close>

text \<open>The definitions compute. An empty buffer is plain text without a charset:\<close>

lemma demo_run_empty:
  "observe (match demo_env demo_heap 0 [] 0)
     = Some (''text/plain'', [''text/x-plain''], Map.empty, ''.txt'')"
  by (simp add: match.simps cloneHierarchy_def clone_loop.simps clone_def set_parent_def
      Parent_def Params_def get_mime_def get_children_def get_params_def observe_def
      optional_params_def needsCharset_def overlay_def demo_env_def demo_heap_def nth_append)

text \<open>A buffer starting with \<^verbatim>\<open><\<close> is HTML, with the charset the stand-in reports:\<close>

lemma demo_run_html:
  "observe (match demo_env demo_heap 0 [60, 104] 16)
     = Some (''text/html'', [], [''charset'' \<mapsto> ''iso-8859-1''], ''.html'')"
  by (simp add: match.simps cloneHierarchy_def clone_loop.simps clone_def set_parent_def
      Parent_def Params_def get_mime_def get_children_def get_params_def observe_def
      optional_params_def needsCharset_def overlay_def demo_env_def demo_heap_def nth_append)

text \<open>
  The root's children are an always-rejecting and an always-accepting detector; after
  \<open>Extend\<close> registers a third, always-accepting one, the match ends there:
\<close>

lemma demo_run_extended:
  "(case Extend demo_env demo_heap 0 (Some (\<lambda>b l. True)) ''text/x-demo'' ''.demo'' [] of
      Inl e \<Rightarrow> None
    | Inr h' \<Rightarrow> observe (match demo_env h' 0 [] 0))
     = Some (''text/x-demo'', [], Map.empty, ''.demo'')"
  by (simp add: Extend_def demo_parse_def match.simps cloneHierarchy_def clone_loop.simps
      clone_def set_parent_def
      Parent_def Params_def get_mime_def get_children_def get_params_def observe_def
      optional_params_def needsCharset_def overlay_def demo_env_def demo_heap_def nth_append)

text \<open>A nil detector registered with \<open>Extend\<close> makes the next match panic:\<close>

lemma demo_run_nil_detector:
  "(case Extend demo_env demo_heap 0 None ''text/x-demo'' ''.demo'' [] of
      Inl e \<Rightarrow> None
    | Inr h' \<Rightarrow> match demo_env h' 0 [] 0)
     = Some (Inl InvalidAddress)"
  by (simp add: Extend_def demo_parse_def match.simps
      get_mime_def get_children_def demo_env_def demo_heap_def nth_append)

section \<open>Cloning a parent chain\<close>

lemma ancestry_bound: "ancestry h p as \<Longrightarrow> a \<in> set as \<Longrightarrow> a < length (mimes h)"
  by (induction rule: ancestry.induct) (auto simp: get_mime_def split: if_splits)

lemma ancestry_transfer:
  "ancestry h p as \<Longrightarrow>
   \<forall>a\<in>set as. get_mime h' a = get_mime h a \<and>
      (\<forall>node own. get_mime h a = Inr node \<longrightarrow> get_params h node = Inr own
          \<longrightarrow> get_params h' node = Inr own) \<Longrightarrow>
   ancestry h' p as"
  by (induction rule: ancestry.induct) (auto intro: ancestry.intros)

lemma ancestry_params:
  "ancestry h p as \<Longrightarrow> a \<in> set as \<Longrightarrow> \<exists>own. get_params h (mimes h ! a) = Inr own"
  by (induction rule: ancestry.induct) (auto simp: get_mime_def split: if_splits)

lemma get_params_grow:
  "get_params h node = Inr own \<Longrightarrow> maps h' = maps h @ ms \<Longrightarrow> get_params h' node = Inr own"
  by (auto simp: get_params_def nth_append split: option.splits if_splits)

inductive_cases ancestry_NilE: "ancestry h p []"
inductive_cases ancestry_ConsE: "ancestry h p (a # as)"

lemma clone_loop_char:
  "ancestry h p as \<Longrightarrow> lastChild < length (mimes h) \<Longrightarrow> lastChild \<notin> set as \<Longrightarrow>
   parent (mimes h ! lastChild) = None \<Longrightarrow>
   clone_loop h lastChild p =
     Some (Inr (h\<lparr>mimes := (mimes h)[lastChild := (mimes h ! lastChild)
                    \<lparr>parent := (if as = [] then None else Some (length (mimes h)))\<rparr>]
                  @ clone_nodes (map (\<lambda>a. mimes h ! a) as) (length (mimes h)) (length (maps h)),
                maps := maps h @ map (own_params h) as\<rparr>))"
proof (induction as arbitrary: h p lastChild)
  case Nil
  have "p = None" using Nil.prems(1) by (rule ancestry_NilE)
  moreover have "(mimes h ! lastChild)\<lparr>parent := None\<rparr> = mimes h ! lastChild"
    using Nil by (cases "mimes h ! lastChild") simp
  ultimately show ?case by (simp add: clone_loop.simps)
next
  case (Cons a as)
  obtain node own where hyps: "p = Some a" "get_mime h a = Inr node"
      "get_params h node = Inr own" "ancestry h (parent node) as"
    using Cons.prems(1) by (rule ancestry_ConsE)
  define n where "n = length (mimes h)"
  define cl where "cl = \<lparr>typ = typ node, aliases = aliases node,
      params = Some (length (maps h)), extension = extension node,
      detector = None, children = None, parent = None\<rparr>"
  define h1 where "h1 = h\<lparr>mimes := mimes h @ [cl], maps := maps h @ [own]\<rparr>"
  define lc where "lc = (mimes h ! lastChild)\<lparr>parent := Some n\<rparr>"
  define h2 where "h2 = h1\<lparr>mimes := (mimes h @ [cl])[lastChild := lc]\<rparr>"
  have a: "a < n" "node = mimes h ! a"
    using hyps(2) by (auto simp: get_mime_def n_def split: if_splits)
  have ne: "lastChild \<noteq> a" "lastChild \<notin> set as" using Cons.prems by auto
  have asb: "\<And>x. x \<in> set as \<Longrightarrow> x < n"
    using ancestry_bound [OF hyps(4)] by (simp add: n_def)
  have c: "clone h a None = Inr (n, h1)"
    using hyps(2,3) by (simp add: clone_def cl_def h1_def n_def overlay_def)
  have s: "set_parent h1 lastChild (Some n) = Inr h2"
    using Cons.prems(2) by (simp add: set_parent_def get_mime_def h1_def h2_def lc_def nth_append)
  have p: "Parent h2 a = Inr (parent node)"
    using a ne(1) by (simp add: Parent_def get_mime_def h2_def h1_def n_def nth_append)
  have step: "clone_loop h lastChild p = clone_loop h2 n (parent node)"
    by (subst clone_loop.simps) (simp add: hyps(1) c s p)
  have same: "\<And>x. x \<in> set as \<Longrightarrow> mimes h2 ! x = mimes h ! x"
    using asb ne(2) Cons.prems(2)
    by (auto simp: h2_def h1_def n_def nth_append nth_list_update)
  have anc2: "ancestry h2 (parent node) as"
  proof (rule ancestry_transfer [OF hyps(4)], intro ballI conjI allI impI)
    fix x assume x: "x \<in> set as"
    show "get_mime h2 x = get_mime h x"
      using same [OF x] asb [OF x] by (simp add: get_mime_def h2_def h1_def n_def)
    fix nd own' assume "get_params h nd = Inr own'"
    then show "get_params h2 nd = Inr own'"
      by (rule get_params_grow) (simp add: h2_def h1_def)
  qed
  have l2: "length (mimes h2) = Suc n" "length (maps h2) = Suc (length (maps h))"
    by (simp_all add: h2_def h1_def n_def)
  have n2: "mimes h2 ! n = cl"
    using Cons.prems(2) by (simp add: h2_def h1_def n_def nth_append)
  have ih: "clone_loop h2 n (parent node) =
     Some (Inr (h2\<lparr>mimes := (mimes h2)[n := (mimes h2 ! n)
                    \<lparr>parent := (if as = [] then None else Some (length (mimes h2)))\<rparr>]
                  @ clone_nodes (map (\<lambda>a. mimes h2 ! a) as) (length (mimes h2)) (length (maps h2)),
                maps := maps h2 @ map (own_params h2) as\<rparr>))"
  proof (rule Cons.IH [OF anc2])
    show "n < length (mimes h2)" by (simp add: l2)
    show "n \<notin> set as" using asb by auto
    show "parent (mimes h2 ! n) = None" by (simp add: n2 cl_def)
  qed
  have m1: "map (\<lambda>a. mimes h2 ! a) as = map (\<lambda>a. mimes h ! a) as"
    using same by simp
  have m2: "map (own_params h2) as = map (own_params h) as"
  proof (rule map_cong [OF refl])
    fix x assume x: "x \<in> set as"
    obtain q where q: "get_params h (mimes h ! x) = Inr q"
      using ancestry_params [OF hyps(4) x] by blast
    have "get_params h2 (mimes h ! x) = Inr q"
      by (rule get_params_grow [OF q]) (simp add: h2_def h1_def)
    then show "own_params h2 x = own_params h x"
      using q same [OF x] asb [OF x]
      by (simp add: own_params_def Params_def get_mime_def l2 n_def)
  qed
  have o: "own_params h a = own"
    using hyps(2,3) by (simp add: own_params_def Params_def)
  have upd: "(mimes h2)[n := cl\<lparr>parent := (if as = [] then None else Some (Suc n))\<rparr>]
      = (mimes h)[lastChild := lc] @ [cl\<lparr>parent := (if as = [] then None else Some (Suc n))\<rparr>]"
    using Cons.prems(2) by (simp add: h2_def h1_def n_def list_update_append)
  show ?case
    unfolding step ih m1 m2 l2 n2 upd
    using a o by (simp add: h2_def h1_def cl_def lc_def n_def)
qed

lemma cloneHierarchy_char:
  assumes anc: "ancestry h (Some m) (m # as)"
  shows "cloneHierarchy h m ps =
     Some (Inr (length (mimes h),
        h\<lparr>mimes := mimes h
              @ clone_nodes (map (\<lambda>a. mimes h ! a) (m # as)) (length (mimes h)) (length (maps h)),
          maps := maps h @ (own_params h m ++ overlay ps) # map (own_params h) as\<rparr>))"
proof -
  obtain node own where hyps: "get_mime h m = Inr node"
      "get_params h node = Inr own" "ancestry h (parent node) as"
    using anc by (rule ancestry_ConsE)
  define n where "n = length (mimes h)"
  define cl where "cl = \<lparr>typ = typ node, aliases = aliases node,
      params = Some (length (maps h)), extension = extension node,
      detector = None, children = None, parent = None\<rparr>"
  define h1 where "h1 = h\<lparr>mimes := mimes h @ [cl], maps := maps h @ [own ++ overlay ps]\<rparr>"
  have m: "m < n" "node = mimes h ! m"
    using hyps(1) by (auto simp: get_mime_def n_def split: if_splits)
  have asb: "\<And>x. x \<in> set as \<Longrightarrow> x < n"
    using ancestry_bound [OF hyps(3)] by (simp add: n_def)
  have c: "clone h m ps = Inr (n, h1)"
    using hyps(1,2) by (simp add: clone_def cl_def h1_def n_def)
  have p: "Parent h1 m = Inr (parent node)"
    using m by (simp add: Parent_def get_mime_def h1_def n_def nth_append)
  have same: "\<And>x. x \<in> set as \<Longrightarrow> mimes h1 ! x = mimes h ! x"
    using asb by (auto simp: h1_def n_def nth_append)
  have anc1: "ancestry h1 (parent node) as"
  proof (rule ancestry_transfer [OF hyps(3)], intro ballI conjI allI impI)
    fix x assume x: "x \<in> set as"
    show "get_mime h1 x = get_mime h x"
      using same [OF x] asb [OF x] by (simp add: get_mime_def h1_def n_def)
    fix nd own' assume "get_params h nd = Inr own'"
    then show "get_params h1 nd = Inr own'"
      by (rule get_params_grow) (simp add: h1_def)
  qed
  have l1: "length (mimes h1) = Suc n" "length (maps h1) = Suc (length (maps h))"
    by (simp_all add: h1_def n_def)
  have n1: "mimes h1 ! n = cl"
    by (simp add: h1_def n_def)
  have loop: "clone_loop h1 n (parent node) =
     Some (Inr (h1\<lparr>mimes := (mimes h1)[n := (mimes h1 ! n)
                    \<lparr>parent := (if as = [] then None else Some (length (mimes h1)))\<rparr>]
                  @ clone_nodes (map (\<lambda>a. mimes h1 ! a) as) (length (mimes h1)) (length (maps h1)),
                maps := maps h1 @ map (own_params h1) as\<rparr>))"
  proof (rule clone_loop_char [OF anc1])
    show "n < length (mimes h1)" by (simp add: l1)
    show "n \<notin> set as" using asb by auto
    show "parent (mimes h1 ! n) = None" by (simp add: n1 cl_def)
  qed
  have m1: "map (\<lambda>a. mimes h1 ! a) as = map (\<lambda>a. mimes h ! a) as"
    using same by simp
  have m2: "map (own_params h1) as = map (own_params h) as"
  proof (rule map_cong [OF refl])
    fix x assume x: "x \<in> set as"
    obtain q where q: "get_params h (mimes h ! x) = Inr q"
      using ancestry_params [OF hyps(3) x] by blast
    have "get_params h1 (mimes h ! x) = Inr q"
      by (rule get_params_grow [OF q]) (simp add: h1_def)
    then show "own_params h1 x = own_params h x"
      using q same [OF x] asb [OF x]
      by (simp add: own_params_def Params_def get_mime_def l1 n_def)
  qed
  have o: "own_params h m = own"
    using hyps(1,2) by (simp add: own_params_def Params_def)
  have upd: "(mimes h1)[n := cl\<lparr>parent := (if as = [] then None else Some (Suc n))\<rparr>]
      = mimes h @ [cl\<lparr>parent := (if as = [] then None else Some (Suc n))\<rparr>]"
    by (simp add: h1_def n_def)
  have "cloneHierarchy h m ps = Some (Inr (n, h1\<lparr>mimes := (mimes h1)[n := (mimes h1 ! n)
                    \<lparr>parent := (if as = [] then None else Some (length (mimes h1)))\<rparr>]
                  @ clone_nodes (map (\<lambda>a. mimes h1 ! a) as) (length (mimes h1)) (length (maps h1)),
                maps := maps h1 @ map (own_params h1) as\<rparr>))"
    by (simp add: cloneHierarchy_def c p loop)
  then show ?thesis
    unfolding m1 m2 l1 n1 upd
    using m o by (simp add: h1_def cl_def n_def)
qed


lemma range_children_none:
  "(range_children h inp lim cs = Inr None) = (\<forall>c\<in>set cs. rejects h inp lim c)"
  by (induction cs) (auto simp: rejects_def split: sum.splits option.splits)

lemma range_children_some:
  "(range_children h inp lim cs = Inr (Some c)) =
   (\<exists>pre post. cs = pre @ c # post \<and> (\<forall>x\<in>set pre. rejects h inp lim x) \<and> accepts h inp lim c)"
proof (induction cs)
  case Nil
  then show ?case by simp
next
  case (Cons x cs)
  show ?case
  proof (cases "rejects h inp lim x")
    case True
    then have na: "\<not> accepts h inp lim x"
      by (auto simp: rejects_def accepts_def split: sum.splits option.splits)
    have "range_children h inp lim (x # cs) = range_children h inp lim cs"
      using True by (auto simp: rejects_def split: sum.splits option.splits)
    moreover have "(\<exists>pre post. x # cs = pre @ c # post \<and> (\<forall>y\<in>set pre. rejects h inp lim y) \<and> accepts h inp lim c)
       = (\<exists>pre post. cs = pre @ c # post \<and> (\<forall>y\<in>set pre. rejects h inp lim y) \<and> accepts h inp lim c)"
      (is "?L = ?R")
    proof
      assume ?L
      then obtain pre post where e: "x # cs = pre @ c # post"
        and r: "\<forall>y\<in>set pre. rejects h inp lim y" and a: "accepts h inp lim c" by blast
      show ?R
      proof (cases pre)
        case Nil
        then show ?thesis using e a na by simp
      next
        case (Cons y ys)
        then show ?thesis using e r a by auto
      qed
    next
      assume ?R
      then obtain pre post where e: "cs = pre @ c # post"
        and r: "\<forall>y\<in>set pre. rejects h inp lim y" and a: "accepts h inp lim c" by blast
      have "x # cs = (x # pre) @ c # post" using e by simp
      moreover have "\<forall>y\<in>set (x # pre). rejects h inp lim y" using r True by simp
      ultimately show ?L using a by blast
    qed
    ultimately show ?thesis using Cons.IH by simp
  next
    case False
    show ?thesis
    proof (cases "accepts h inp lim x")
      case True
      then have l: "range_children h inp lim (x # cs) = Inr (Some x)"
        by (auto simp: accepts_def split: sum.splits option.splits)
      have "(\<exists>pre post. x # cs = pre @ c # post \<and> (\<forall>y\<in>set pre. rejects h inp lim y) \<and> accepts h inp lim c)
         = (c = x)" (is "?L = _")
      proof
        assume ?L
        then obtain pre post where e: "x # cs = pre @ c # post"
          and r: "\<forall>y\<in>set pre. rejects h inp lim y" by blast
        show "c = x" using e r False by (cases pre) auto
      next
        assume "c = x"
        then have "x # cs = [] @ c # cs" by simp
        then show ?L using True \<open>c = x\<close> by (metis empty_iff list.set(1))
      qed
      then show ?thesis using l by auto
    next
      case na: False
      have l: "\<exists>e. range_children h inp lim (x # cs) = Inl e"
        using False na by (auto simp: accepts_def rejects_def split: sum.splits option.splits)
      have "\<not> (\<exists>pre post. x # cs = pre @ c # post \<and> (\<forall>y\<in>set pre. rejects h inp lim y) \<and> accepts h inp lim c)"
      proof
        assume "\<exists>pre post. x # cs = pre @ c # post \<and> (\<forall>y\<in>set pre. rejects h inp lim y) \<and> accepts h inp lim c"
        then obtain pre post where e: "x # cs = pre @ c # post"
          and r: "\<forall>y\<in>set pre. rejects h inp lim y" and a: "accepts h inp lim c" by blast
        show False using e r a False na by (cases pre) auto
      qed
      then show ?thesis using l by auto
    qed
  qed
qed

lemma match_terminal:
  "terminal h inp lim m t \<Longrightarrow>
   match E h m inp lim = cloneHierarchy h t (Some (optional_params E (typ (mimes h ! t)) inp))"
proof (induction rule: terminal.induct)
  case (stay h m node cs inp lim)
  have "range_children h inp lim cs = Inr None"
    using stay by (simp add: range_children_none)
  moreover have "node = mimes h ! m"
    using stay(1) by (auto simp: get_mime_def split: if_splits)
  ultimately show ?case
    using stay(1,2) by (subst match.simps) simp
next
  case (descend h m node pre c post inp lim t)
  have "range_children h inp lim (pre @ c # post) = Inr (Some c)"
    using descend by (auto simp: range_children_some)
  then have "match E h m inp lim = match E h c inp lim"
    using descend(1,2) by (subst match.simps) simp
  then show ?case using descend.IH by simp
qed

lemma match_sound_aux:
  "match E h m inp lim = Some res \<Longrightarrow>
   \<forall>r h'. res = Inr (r, h') \<longrightarrow>
   (\<exists>t. terminal h inp lim m t \<and>
       cloneHierarchy h t (Some (optional_params E (typ (mimes h ! t)) inp)) = Some (Inr (r, h')))"
proof (induction rule: match.raw_induct [rotated 1, consumes 1])
  case (1 mt E h m inp lim res)
  show ?case
  proof (intro allI impI)
    fix r h' assume res: "res = Inr (r, h')"
    obtain node where g: "get_mime h m = Inr node"
      using 1(2) res by (cases "get_mime h m") auto
    then have nd: "node = mimes h ! m" by (auto simp: get_mime_def split: if_splits)
    obtain cs where c: "get_children h node = Inr cs"
      using 1(2) res g by (cases "get_children h node") auto
    show "\<exists>t. terminal h inp lim m t \<and>
       cloneHierarchy h t (Some (optional_params E (typ (mimes h ! t)) inp)) = Some (Inr (r, h'))"
    proof (cases "range_children h inp lim cs")
      case (Inl e)
      then show ?thesis using 1(2) res g c by simp
    next
      case (Inr oc)
      show ?thesis
      proof (cases oc)
        case None
        then have "\<forall>x\<in>set cs. rejects h inp lim x"
          using Inr by (simp add: range_children_none)
        then have "terminal h inp lim m m" using g c by (rule terminal.stay [rotated 2])
        moreover have "cloneHierarchy h m (Some (optional_params E (typ node) inp)) = Some (Inr (r, h'))"
          using 1(2) res g c Inr None by simp
        ultimately show ?thesis using nd by blast
      next
        case (Some x)
        then obtain pre post where s: "cs = pre @ x # post" "\<forall>y\<in>set pre. rejects h inp lim y"
            "accepts h inp lim x"
          using Inr by (auto simp: range_children_some)
        have mx: "mt E h x inp lim = Some res" using 1(2) g c Inr Some by simp
        from 1(1) [OF mx] res obtain t where t: "terminal h inp lim x t"
          "cloneHierarchy h t (Some (optional_params E (typ (mimes h ! t)) inp)) = Some (Inr (r, h'))"
          by blast
        have "terminal h inp lim m t"
          using g c s t(1) by (auto intro: terminal.descend)
        then show ?thesis using t(2) by blast
      qed
    qed
  qed
qed

lemma match_sound:
  "match E h m inp lim = Some (Inr (r, h')) \<Longrightarrow>
   \<exists>t. terminal h inp lim m t \<and>
       cloneHierarchy h t (Some (optional_params E (typ (mimes h ! t)) inp)) = Some (Inr (r, h'))"
  using match_sound_aux by blast

lemma terminal_unique:
  "terminal h inp lim m t \<Longrightarrow> terminal h inp lim m t' \<Longrightarrow> t' = t"
proof (induction arbitrary: t' rule: terminal.induct)
  case (stay h m node cs inp lim)
  have n: "range_children h inp lim cs = Inr None"
    using stay by (simp add: range_children_none)
  from stay(4) show ?case
  proof (cases rule: terminal.cases)
    case (stay node' cs')
    then show ?thesis by simp
  next
    case (descend node' pre c post)
    then have "range_children h inp lim cs = Inr (Some c)"
      using stay.hyps(1,2) by (auto simp: range_children_some)
    then show ?thesis using n by simp
  qed
next
  case (descend h m node pre c post inp lim t)
  have s: "range_children h inp lim (pre @ c # post) = Inr (Some c)"
    using descend by (auto simp: range_children_some)
  from descend.prems show ?case
  proof (cases rule: terminal.cases)
    case (stay node' cs')
    then have "range_children h inp lim (pre @ c # post) = Inr None"
      using descend.hyps(1,2) by (simp add: range_children_none)
    then show ?thesis using s by simp
  next
    case (descend node' pre' c' post')
    then have "pre @ c # post = pre' @ c' # post'"
      using descend.hyps(1,2) by simp
    moreover have "range_children h inp lim (pre' @ c' # post') = Inr (Some c')"
      unfolding range_children_some using descend(3,4) by blast
    ultimately have "range_children h inp lim (pre @ c # post) = Inr (Some c')"
      by simp
    then have "c' = c" using s by simp
    then show ?thesis using descend(5) descend.IH by simp
  qed
qed


lemma first_acceptor:
  assumes "\<forall>c\<in>set cs. accepts h inp lim c \<or> rejects h inp lim c"
  shows "(\<forall>c\<in>set cs. rejects h inp lim c) \<or>
         (\<exists>pre c post. cs = pre @ c # post \<and> (\<forall>x\<in>set pre. rejects h inp lim x)
             \<and> accepts h inp lim c)"
proof (cases "\<exists>c\<in>set cs. accepts h inp lim c")
  case True
  then obtain pre c post where s: "cs = pre @ c # post" "accepts h inp lim c"
      "\<forall>y\<in>set pre. \<not> accepts h inp lim y"
    using split_list_first_prop [of cs "accepts h inp lim"] by blast
  have "\<forall>x\<in>set pre. rejects h inp lim x" using s(1,3) assms by auto
  then show ?thesis using s(1,2) by blast
next
  case False
  then show ?thesis using assms by blast
qed

lemma canonical_valid: "canonical h p m \<Longrightarrow> get_mime h m = Inr (mimes h ! m)"
  by (erule canonical.cases) (auto simp: get_mime_def split: if_splits)

lemma canonical_terminal_aux:
  "canonical h p m \<Longrightarrow>
   \<forall>as. ancestry h p as \<longrightarrow> (\<exists>t ts. terminal h inp lim m t \<and> ancestry h (Some t) (t # ts))"
proof (induction rule: canonical.induct)
  case (node h m node p own cs)
  show ?case
  proof (intro allI impI)
    fix as assume as: "ancestry h p as"
    have me: "ancestry h (Some m) (m # as)"
      using node.hyps(1,2,3) as by (auto intro: ancestry.up)
    have "\<forall>c\<in>set cs. accepts h inp lim c \<or> rejects h inp lim c"
    proof
      fix c assume "c \<in> set cs"
      then have "get_mime h c = Inr (mimes h ! c)" "detector (mimes h ! c) \<noteq> None"
        using node.IH canonical_valid by blast+
      then show "accepts h inp lim c \<or> rejects h inp lim c"
        by (auto simp: accepts_def rejects_def)
    qed
    from first_acceptor [OF this]
    show "\<exists>t ts. terminal h inp lim m t \<and> ancestry h (Some t) (t # ts)"
    proof
      assume "\<forall>c\<in>set cs. rejects h inp lim c"
      then have "terminal h inp lim m m"
        using node.hyps(1,4) by (auto intro: terminal.stay)
      then show ?thesis using me by blast
    next
      assume "\<exists>pre c post. cs = pre @ c # post \<and> (\<forall>x\<in>set pre. rejects h inp lim x)
             \<and> accepts h inp lim c"
      then obtain pre c post where s: "cs = pre @ c # post"
          "\<forall>x\<in>set pre. rejects h inp lim x" "accepts h inp lim c" by blast
      then have "c \<in> set cs" by simp
      then obtain t ts where t: "terminal h inp lim c t" "ancestry h (Some t) (t # ts)"
        using node.IH me by blast
      have "terminal h inp lim m t"
        using node.hyps(1,4) s t(1) by (auto intro: terminal.descend)
      then show ?thesis using t(2) by blast
    qed
  qed
qed

lemma canonical_terminal:
  "canonical h None m \<Longrightarrow> \<exists>t ts. terminal h inp lim m t \<and> ancestry h (Some t) (t # ts)"
  using canonical_terminal_aux ancestry.top by blast

text \<open>The chain of clones is itself a finite parent chain.\<close>

lemma clone_nodes_length: "length (clone_nodes xs n k) = length xs"
  by (induction xs arbitrary: n k) auto

lemma clone_nodes_ancestry:
  "mimes h' = pre @ clone_nodes xs n k \<Longrightarrow> length pre = n \<Longrightarrow>
   k + length xs \<le> length (maps h') \<Longrightarrow>
   ancestry h' (if xs = [] then None else Some n) [n..<n + length xs]"
proof (induction xs arbitrary: pre n k)
  case Nil
  then show ?case by (simp add: ancestry.top)
next
  case (Cons x xs)
  define cl where "cl = \<lparr>typ = typ x, aliases = aliases x, params = Some k, extension = extension x,
      detector = None, children = None,
      parent = (if xs = [] then None else Some (Suc n))\<rparr>"
  have m: "mimes h' = (pre @ [cl]) @ clone_nodes xs (Suc n) (Suc k)"
    using Cons.prems(1) by (simp add: cl_def)
  have "ancestry h' (if xs = [] then None else Some (Suc n)) [Suc n..<Suc n + length xs]"
    by (rule Cons.IH [OF m]) (use Cons.prems in auto)
  then have rest: "ancestry h' (parent cl) [Suc n..<Suc n + length xs]"
    by (simp add: cl_def)
  have g: "get_mime h' n = Inr cl"
    using Cons.prems(2) by (simp add: get_mime_def m nth_append clone_nodes_length)
  have q: "get_params h' cl = Inr (maps h' ! k)"
    using Cons.prems(3) by (simp add: get_params_def cl_def)
  have "ancestry h' (Some n) (n # [Suc n..<Suc n + length xs])"
    using g q rest by (rule ancestry.up)
  then show ?case by (simp add: upt_rec)
qed


lemma match_result:
  assumes "terminal h inp lim m t" and "ancestry h (Some t) (t # ts)"
  shows "match E h m inp lim =
     Some (Inr (length (mimes h),
                with_clones h (t # ts) (optional_params E (typ (mimes h ! t)) inp)))"
  using match_terminal [OF assms(1)] cloneHierarchy_char [OF assms(2)]
  by (simp add: with_clones_def overlay_def)

lemma extends_refl: "extends h h"
  by (simp add: extends_def)

lemma extends_trans: "extends h h1 \<Longrightarrow> extends h1 h2 \<Longrightarrow> extends h h2"
  by (auto simp: extends_def)

lemma extends_with_clones: "extends h (with_clones h chain ps)"
  by (simp add: extends_def with_clones_def)

lemma extends_get_mime:
  "extends h h' \<Longrightarrow> get_mime h a = Inr node \<Longrightarrow> get_mime h' a = Inr node"
  by (auto simp: extends_def get_mime_def nth_append split: if_splits)

lemma extends_get_params:
  "extends h h' \<Longrightarrow> get_params h node = Inr own \<Longrightarrow> get_params h' node = Inr own"
  by (auto simp: extends_def get_params_def nth_append split: option.splits if_splits)

lemma extends_get_children:
  "extends h h' \<Longrightarrow> get_children h node = Inr cs \<Longrightarrow> get_children h' node = Inr cs"
  by (auto simp: extends_def get_children_def nth_append split: option.splits if_splits)

lemma extends_accepts: "extends h h' \<Longrightarrow> accepts h inp lim c \<Longrightarrow> accepts h' inp lim c"
proof -
  assume e: "extends h h'" and a: "accepts h inp lim c"
  from a obtain node where g: "get_mime h c = Inr node"
    by (cases "get_mime h c") (auto simp: accepts_def)
  show ?thesis using a g extends_get_mime [OF e g] by (simp add: accepts_def)
qed

lemma extends_rejects: "extends h h' \<Longrightarrow> rejects h inp lim c \<Longrightarrow> rejects h' inp lim c"
proof -
  assume e: "extends h h'" and a: "rejects h inp lim c"
  from a obtain node where g: "get_mime h c = Inr node"
    by (cases "get_mime h c") (auto simp: rejects_def)
  show ?thesis using a g extends_get_mime [OF e g] by (simp add: rejects_def)
qed

lemma extends_ancestry: "ancestry h p as \<Longrightarrow> extends h h' \<Longrightarrow> ancestry h' p as"
proof (induction rule: ancestry.induct)
  case (top h)
  show ?case by (rule ancestry.top)
next
  case (up h a node own as)
  show ?case
    using extends_get_mime [OF up.prems up.hyps(1)] extends_get_params [OF up.prems up.hyps(2)]
      up.IH [OF up.prems]
    by (rule ancestry.up)
qed

lemma extends_terminal:
  "terminal h inp lim m t \<Longrightarrow> extends h h' \<Longrightarrow> terminal h' inp lim m t"
proof (induction rule: terminal.induct)
  case (stay h m node cs inp lim)
  have "\<forall>c\<in>set cs. rejects h' inp lim c"
    using stay.hyps(3) extends_rejects [OF stay.prems] by blast
  with extends_get_mime [OF stay.prems stay.hyps(1)]
    extends_get_children [OF stay.prems stay.hyps(2)]
  show ?case by (rule terminal.stay)
next
  case (descend h m node pre c post inp lim t)
  have "\<forall>c\<in>set pre. rejects h' inp lim c"
    using descend.hyps(3) extends_rejects [OF descend.prems] by blast
  with extends_get_mime [OF descend.prems descend.hyps(1)]
    extends_get_children [OF descend.prems descend.hyps(2)]
  show ?case
    using extends_accepts [OF descend.prems descend.hyps(4)] descend.IH [OF descend.prems]
    by (rule terminal.descend)
qed

lemma extends_canonical: "canonical h p m \<Longrightarrow> extends h h' \<Longrightarrow> canonical h' p m"
proof (induction rule: canonical.induct)
  case (node h m node p own cs)
  have g: "get_mime h' m = Inr node" using node.prems node.hyps(1) by (rule extends_get_mime)
  have q: "get_params h' node = Inr own" using node.prems node.hyps(3) by (rule extends_get_params)
  have c: "get_children h' node = Inr cs" using node.prems node.hyps(4) by (rule extends_get_children)
  have "\<forall>c\<in>set cs. canonical h' (Some m) c \<and> detector (mimes h' ! c) \<noteq> None"
  proof
    fix x assume x: "x \<in> set cs"
    then have cx: "canonical h (Some m) x" "canonical h' (Some m) x" "detector (mimes h ! x) \<noteq> None"
      using node.IH node.prems by auto
    have "get_mime h' x = Inr (mimes h ! x)"
      using node.prems canonical_valid [OF cx(1)] by (rule extends_get_mime)
    moreover have "get_mime h' x = Inr (mimes h' ! x)" using canonical_valid [OF cx(2)] .
    ultimately show "canonical h' (Some m) x \<and> detector (mimes h' ! x) \<noteq> None"
      using cx by simp
  qed
  with g node.hyps(2) q c show ?case by (rule canonical.node)
qed

lemma extends_own_params:
  assumes "extends h h'" "get_mime h a = Inr node" "get_params h node = Inr own"
  shows "own_params h' a = own \<and> own_params h a = own"
  using assms(2,3) extends_get_mime [OF assms(1,2)] extends_get_params [OF assms(1,3)]
  by (simp add: own_params_def Params_def)

lemma canonicalI:
  assumes "m < length (mimes h)" "parent (mimes h ! m) = p"
    "get_params h (mimes h ! m) = Inr own" "get_children h (mimes h ! m) = Inr cs"
    "\<forall>c\<in>set cs. canonical h (Some m) c \<and> detector (mimes h ! c) \<noteq> None"
  shows "canonical h p m"
proof -
  have "get_mime h m = Inr (mimes h ! m)" using assms(1) by (simp add: get_mime_def)
  then show ?thesis using assms(2-5) by (rule canonical.node)
qed

lemma demo_leaf_1: "canonical demo_heap (Some 0) 1"
  by (rule canonicalI [where cs = "[]" and own = Map.empty])
     (simp_all add: demo_heap_def get_mime_def get_params_def get_children_def)

lemma demo_leaf_3: "canonical demo_heap (Some 2) 3"
  by (rule canonicalI [where cs = "[]" and own = Map.empty])
     (simp_all add: demo_heap_def get_mime_def get_params_def get_children_def)

lemma demo_node_2: "canonical demo_heap (Some 0) 2"
proof (rule canonicalI [where cs = "[3]" and own = Map.empty])
  show "\<forall>c\<in>set [3]. canonical demo_heap (Some 2) c \<and> detector (mimes demo_heap ! c) \<noteq> None"
    using demo_leaf_3 by (simp add: demo_heap_def)
qed (simp_all add: demo_heap_def get_mime_def get_params_def get_children_def)

lemma demo_canonical: "canonical demo_heap None 0"
proof (rule canonicalI [where cs = "[1, 2]" and own = Map.empty])
  show "\<forall>c\<in>set [1, 2]. canonical demo_heap (Some 0) c \<and> detector (mimes demo_heap ! c) \<noteq> None"
    using demo_leaf_1 demo_node_2 by (simp add: demo_heap_def)
qed (simp_all add: demo_heap_def get_mime_def get_params_def get_children_def)

text \<open>
  The tree built by \<^verbatim>\<open>newMIME\<close> and \<^verbatim>\<open>alias\<close> is well formed, and matching runs on it:
\<close>

lemma built_tree_eq: "built_tree = Inr (3, built_heap)"
  by (simp add: built_tree_def built_heap_def newMIME_def alias_mime_def set_parent_def get_mime_def
      nth_append)

lemma built_canonical: "canonical built_heap None 3"
proof -
  have n0: "canonical built_heap (Some 3) 0"
    by (rule canonicalI [where cs = "[]" and own = Map.empty])
       (simp_all add: built_heap_def get_params_def get_children_def)
  have n1: "canonical built_heap (Some 2) 1"
    by (rule canonicalI [where cs = "[]" and own = Map.empty])
       (simp_all add: built_heap_def get_params_def get_children_def)
  have n2: "canonical built_heap (Some 3) 2"
    by (rule canonicalI [where cs = "[1]" and own = Map.empty])
       (use n1 in \<open>simp_all add: built_heap_def get_params_def get_children_def\<close>)
  show ?thesis
    by (rule canonicalI [where cs = "[0, 2]" and own = Map.empty])
       (use n0 n2 in \<open>simp_all add: built_heap_def get_params_def get_children_def\<close>)
qed

lemma built_run_html:
  "observe (match demo_env built_heap 3 [60, 104] 16)
     = Some (''text/html'', [], [''charset'' \<mapsto> ''iso-8859-1''], ''.html'')"
  by (simp add: match.simps cloneHierarchy_def clone_loop.simps clone_def set_parent_def
      Parent_def Params_def get_mime_def get_children_def get_params_def observe_def
      optional_params_def needsCharset_def overlay_def demo_env_def built_heap_def nth_append)

lemma ancestry_last: "ancestry h p as \<Longrightarrow> as \<noteq> [] \<Longrightarrow> Parent h (last as) = Inr None"
proof (induction rule: ancestry.induct)
  case (top h)
  then show ?case by simp
next
  case (up h a node own as)
  show ?case
  proof (cases as)
    case Nil
    then have "parent node = None" using up.hyps(3) by (auto elim: ancestry_NilE)
    then show ?thesis using Nil up.hyps(1) by (simp add: Parent_def)
  next
    case (Cons b bs)
    then show ?thesis using up.IH by simp
  qed
qed

lemma clone_nodes_nth:
  "i < length xs \<Longrightarrow>
   clone_nodes xs n k ! i =
     \<lparr>typ = typ (xs ! i), aliases = aliases (xs ! i), params = Some (k + i),
      extension = extension (xs ! i), detector = None, children = None,
      parent = (if Suc i = length xs then None else Some (Suc (n + i)))\<rparr>"
proof (induction xs arbitrary: n k i)
  case Nil
  then show ?case by simp
next
  case (Cons x xs)
  show ?case
  proof (cases i)
    case 0
    then show ?thesis by auto
  next
    case (Suc j)
    then have "j < length xs" using Cons.prems by simp
    from Cons.IH [OF this, of "Suc n" "Suc k"] show ?thesis using Suc by simp
  qed
qed

lemma with_clones_mime:
  assumes "i < length chain" "\<forall>a\<in>set chain. a < length (mimes h)"
  shows "get_mime (with_clones h chain ps) (length (mimes h) + i) =
     Inr \<lparr>typ = typ (mimes h ! (chain ! i)), aliases = aliases (mimes h ! (chain ! i)),
          params = Some (length (maps h) + i),
          extension = extension (mimes h ! (chain ! i)), detector = None, children = None,
          parent = (if Suc i = length chain then None else Some (Suc (length (mimes h) + i)))\<rparr>"
  using assms
  by (simp add: get_mime_def with_clones_def clone_nodes_length nth_append clone_nodes_nth)

lemma with_clones_params:
  assumes "i < length chain" "\<forall>a\<in>set chain. a < length (mimes h)"
  shows "Params (with_clones h chain ps) (length (mimes h) + i) =
     Inr (if i = 0 then own_params h (chain ! 0) ++ ps else own_params h (chain ! i))"
proof -
  obtain t ts where c: "chain = t # ts" using assms(1) by (cases chain) auto
  have "maps (with_clones h chain ps) ! (length (maps h) + i) =
      (if i = 0 then own_params h (chain ! 0) ++ ps else own_params h (chain ! i))"
    using assms(1) by (cases i) (simp_all add: with_clones_def c nth_append)
  moreover have "length (maps h) + i < length (maps (with_clones h chain ps))"
    using assms(1) by (simp add: with_clones_def c)
  ultimately show ?thesis
    unfolding Params_def with_clones_mime [OF assms] by (simp add: get_params_def)
qed

lemma with_clones_ancestry:
  assumes "chain \<noteq> []"
  shows "ancestry (with_clones h chain ps) (Some (length (mimes h)))
           [length (mimes h)..<length (mimes h) + length chain]"
proof -
  obtain t ts where c: "chain = t # ts" using assms by (cases chain) auto
  have "ancestry (with_clones h chain ps)
          (if map (\<lambda>a. mimes h ! a) chain = [] then None else Some (length (mimes h)))
          [length (mimes h)..<length (mimes h) + length (map (\<lambda>a. mimes h ! a) chain)]"
    by (rule clone_nodes_ancestry [where pre = "mimes h" and k = "length (maps h)"])
       (simp_all add: with_clones_def c)
  then show ?thesis using assms by simp
qed

lemma canonical_match:
  assumes "canonical h None root"
  obtains t ts where "terminal h inp lim root t" "ancestry h (Some t) (t # ts)"
    "match E h root inp lim =
       Some (Inr (length (mimes h),
                  with_clones h (t # ts) (optional_params E (typ (mimes h ! t)) inp)))"
proof -
  obtain t ts where t: "terminal h inp lim root t" "ancestry h (Some t) (t # ts)"
    using canonical_terminal [OF assms] by blast
  show thesis using that [OF t match_result [OF t]] .
qed

section \<open>Matching against a well-formed tree\<close>

text \<open>
  C2. Matching is total. On a store in which \<open>root\<close> is the root of a well-formed tree
  (every reference is allocated, every node's parent pointer is the node it hangs under,
  every child has a detector), \<open>match\<close> returns a result for every buffer, the empty
  one included, and every read limit: it neither panics nor runs forever. Following the
  parent pointers from the result gives a finite chain \<open>rs\<close> whose last node has no
  parent.
\<close>

theorem match_total:
  assumes "canonical h None root"
  shows "\<exists>r h' rs. match E h root inp lim = Some (Inr (r, h'))
           \<and> ancestry h' (Some r) rs \<and> Parent h' (last rs) = Inr None"
proof -
  obtain t ts where t: "match E h root inp lim =
       Some (Inr (length (mimes h),
                  with_clones h (t # ts) (optional_params E (typ (mimes h ! t)) inp)))"
    using assms by (rule canonical_match)
  let ?h' = "with_clones h (t # ts) (optional_params E (typ (mimes h ! t)) inp)"
  let ?rs = "[length (mimes h)..<length (mimes h) + length (t # ts)]"
  have a: "ancestry ?h' (Some (length (mimes h))) ?rs"
    by (rule with_clones_ancestry) simp
  have "?rs \<noteq> []" by simp
  with a have "Parent ?h' (last ?rs) = Inr None" by (rule ancestry_last)
  with t a show ?thesis by blast
qed

theorem match_total_witness:
  "canonical demo_heap None 0
   \<and> (\<exists>r h' rs. match demo_env demo_heap 0 [] 0 = Some (Inr (r, h'))
           \<and> ancestry h' (Some r) rs \<and> Parent h' (last rs) = Inr None)"
  by (rule conjI [OF demo_canonical match_total [OF demo_canonical]])


text \<open>
  C6. The result's parameter map is a new map object holding the terminal node's own
  parameters overlaid with the optional (charset) parameters, the overlay winning on a
  shared key (\<open>++\<close>). The clone of the \<open>i\<close>-th ancestor holds exactly that ancestor's own
  parameters. Every clone in the chain has a map object of its own, allocated by this
  call.
\<close>

theorem clone_parameters:
  assumes "canonical h None root"
  shows "\<exists>t ts r h'. terminal h inp lim root t \<and> ancestry h (Some t) (t # ts)
           \<and> match E h root inp lim = Some (Inr (r, h'))
           \<and> ancestry h' (Some r) [r..<r + Suc (length ts)]
           \<and> Params h' r = Inr (own_params h t ++ optional_params E (typ (mimes h ! t)) inp)
           \<and> (\<forall>i<length ts. Params h' (r + Suc i) = Inr (own_params h (ts ! i)))
           \<and> (\<forall>i\<le>length ts. params (mimes h' ! (r + i)) = Some (length (maps h) + i))"
proof -
  obtain t ts where t: "terminal h inp lim root t" "ancestry h (Some t) (t # ts)"
    "match E h root inp lim =
       Some (Inr (length (mimes h),
                  with_clones h (t # ts) (optional_params E (typ (mimes h ! t)) inp)))"
    using assms by (rule canonical_match)
  let ?ps = "optional_params E (typ (mimes h ! t)) inp"
  let ?h' = "with_clones h (t # ts) ?ps"
  let ?r = "length (mimes h)"
  have b: "\<forall>a\<in>set (t # ts). a < length (mimes h)"
    using ancestry_bound [OF t(2)] by blast
  have a: "ancestry ?h' (Some ?r) [?r..<?r + Suc (length ts)]"
    using with_clones_ancestry [of "t # ts" h ?ps] by simp
  have p0: "Params ?h' ?r = Inr (own_params h t ++ ?ps)"
    using with_clones_params [of 0 "t # ts" h ?ps, OF _ b] by simp
  have pi: "\<forall>i<length ts. Params ?h' (?r + Suc i) = Inr (own_params h (ts ! i))"
  proof (intro allI impI)
    fix i assume "i < length ts"
    then have "Suc i < length (t # ts)" by simp
    from with_clones_params [OF this b, of ?ps]
    show "Params ?h' (?r + Suc i) = Inr (own_params h (ts ! i))" by simp
  qed
  have fr: "\<forall>i\<le>length ts. params (mimes ?h' ! (?r + i)) = Some (length (maps h) + i)"
  proof (intro allI impI)
    fix i assume "i \<le> length ts"
    then have "i < length (t # ts)" by simp
    from with_clones_mime [OF this b, of ?ps]
    show "params (mimes ?h' ! (?r + i)) = Some (length (maps h) + i)"
      by (auto simp: get_mime_def split: if_splits)
  qed
  show ?thesis using t a p0 pi fr by blast
qed

theorem clone_parameters_witness:
  "canonical demo_heap None 0
   \<and> (\<exists>t ts r h'. terminal demo_heap [60, 104] 16 0 t \<and> ancestry demo_heap (Some t) (t # ts)
           \<and> match demo_env demo_heap 0 [60, 104] 16 = Some (Inr (r, h'))
           \<and> ancestry h' (Some r) [r..<r + Suc (length ts)]
           \<and> Params h' r = Inr (own_params demo_heap t
                   ++ optional_params demo_env (typ (mimes demo_heap ! t)) [60, 104])
           \<and> (\<forall>i<length ts. Params h' (r + Suc i) = Inr (own_params demo_heap (ts ! i)))
           \<and> (\<forall>i\<le>length ts. params (mimes h' ! (r + i)) = Some (length (maps demo_heap) + i)))"
  by (rule conjI [OF demo_canonical clone_parameters [OF demo_canonical]])

lemma terminal_stayI:
  assumes "m < length (mimes h)" "get_children h (mimes h ! m) = Inr cs"
    "\<forall>c\<in>set cs. rejects h inp lim c"
  shows "terminal h inp lim m m"
proof -
  have "get_mime h m = Inr (mimes h ! m)" using assms(1) by (simp add: get_mime_def)
  then show ?thesis using assms(2,3) by (rule terminal.stay)
qed

lemma terminal_descendI:
  assumes "m < length (mimes h)" "get_children h (mimes h ! m) = Inr (pre @ c # post)"
    "\<forall>x\<in>set pre. rejects h inp lim x" "accepts h inp lim c" "terminal h inp lim c t"
  shows "terminal h inp lim m t"
proof -
  have "get_mime h m = Inr (mimes h ! m)" using assms(1) by (simp add: get_mime_def)
  then show ?thesis using assms(2-5) by (rule terminal.descend)
qed

lemma ancestryI:
  assumes "a < length (mimes h)" "get_params h (mimes h ! a) = Inr own"
    "ancestry h (parent (mimes h ! a)) as"
  shows "ancestry h (Some a) (a # as)"
proof -
  have "get_mime h a = Inr (mimes h ! a)" using assms(1) by (simp add: get_mime_def)
  then show ?thesis using assms(2,3) by (rule ancestry.up)
qed

lemma needsCharset_cases:
  assumes "distinct [TEXT E, HTML E, XML E]"
  shows "needsCharset E t =
     (if t = TEXT E then Some (FromPlain E)
      else if t = HTML E then Some (FromHTML E)
      else if t = XML E then Some (FromXML E) else None)"
  using assms by (auto simp: needsCharset_def)

lemma optional_params_cases:
  assumes "distinct [TEXT E, HTML E, XML E]"
  shows "own ++ optional_params E t inp =
     (if t = TEXT E then (if FromPlain E inp = [] then own else own(''charset'' \<mapsto> FromPlain E inp))
      else if t = HTML E then (if FromHTML E inp = [] then own else own(''charset'' \<mapsto> FromHTML E inp))
      else if t = XML E then (if FromXML E inp = [] then own else own(''charset'' \<mapsto> FromXML E inp))
      else own)"
  by (simp add: optional_params_def needsCharset_cases [OF assms] Let_def)

section \<open>Charset augmentation\<close>

text \<open>
  C5, as the code has it. The charset function is chosen by the terminal node's type and
  applied to the whole buffer; the read limit is not involved. For a terminal node of type
  TEXT, HTML or XML a non-empty label becomes the result's \<open>charset\<close> parameter, replacing
  a \<open>charset\<close> the node carries itself; an empty label adds nothing, and the result's
  parameters are exactly the terminal node's own. For a terminal node of any other type
  the result's parameters are exactly the node's own. So the result has a \<open>charset\<close> key
  without a detected label precisely when the node itself was constructed with one. The
  clones of the ancestors hold their own parameters only.
\<close>

theorem charset_augmentation:
  assumes "canonical h None root" and "distinct [TEXT E, HTML E, XML E]"
  shows "\<exists>t ts r h' q. terminal h inp lim root t \<and> ancestry h (Some t) (t # ts)
           \<and> match E h root inp lim = Some (Inr (r, h')) \<and> Params h' r = Inr q
           \<and> (typ (mimes h ! t) = TEXT E \<longrightarrow>
                 q = (if FromPlain E inp = [] then own_params h t
                      else (own_params h t)(''charset'' \<mapsto> FromPlain E inp)))
           \<and> (typ (mimes h ! t) = HTML E \<longrightarrow>
                 q = (if FromHTML E inp = [] then own_params h t
                      else (own_params h t)(''charset'' \<mapsto> FromHTML E inp)))
           \<and> (typ (mimes h ! t) = XML E \<longrightarrow>
                 q = (if FromXML E inp = [] then own_params h t
                      else (own_params h t)(''charset'' \<mapsto> FromXML E inp)))
           \<and> (typ (mimes h ! t) \<notin> {TEXT E, HTML E, XML E} \<longrightarrow> q = own_params h t)
           \<and> (\<forall>i<length ts. Params h' (r + Suc i) = Inr (own_params h (ts ! i)))"
proof -
  obtain t ts where t: "terminal h inp lim root t" "ancestry h (Some t) (t # ts)"
    "match E h root inp lim =
       Some (Inr (length (mimes h),
                  with_clones h (t # ts) (optional_params E (typ (mimes h ! t)) inp)))"
    using assms(1) by (rule canonical_match)
  let ?ty = "typ (mimes h ! t)"
  let ?ps = "optional_params E ?ty inp"
  let ?h' = "with_clones h (t # ts) ?ps"
  let ?r = "length (mimes h)"
  let ?q = "own_params h t ++ ?ps"
  have b: "\<forall>a\<in>set (t # ts). a < length (mimes h)"
    using ancestry_bound [OF t(2)] by blast
  have p0: "Params ?h' ?r = Inr ?q"
    using with_clones_params [of 0 "t # ts" h ?ps, OF _ b] by simp
  have pi: "\<forall>i<length ts. Params ?h' (?r + Suc i) = Inr (own_params h (ts ! i))"
  proof (intro allI impI)
    fix i assume "i < length ts"
    then have "Suc i < length (t # ts)" by simp
    from with_clones_params [OF this b, of ?ps]
    show "Params ?h' (?r + Suc i) = Inr (own_params h (ts ! i))" by simp
  qed
  note oc = optional_params_cases [OF assms(2)]
  have c1: "?ty = TEXT E \<longrightarrow> ?q = (if FromPlain E inp = [] then own_params h t
                      else (own_params h t)(''charset'' \<mapsto> FromPlain E inp))"
    by (simp add: oc)
  have c2: "?ty = HTML E \<longrightarrow> ?q = (if FromHTML E inp = [] then own_params h t
                      else (own_params h t)(''charset'' \<mapsto> FromHTML E inp))"
    using assms(2) by (auto simp: oc)
  have c3: "?ty = XML E \<longrightarrow> ?q = (if FromXML E inp = [] then own_params h t
                      else (own_params h t)(''charset'' \<mapsto> FromXML E inp))"
    using assms(2) by (auto simp: oc)
  have c4: "?ty \<notin> {TEXT E, HTML E, XML E} \<longrightarrow> ?q = own_params h t"
    by (simp add: oc)
  show ?thesis
    by (intro exI conjI, rule t(1), rule t(2), rule t(3), rule p0, rule c1, rule c2, rule c3,
        rule c4, rule pi)
qed

lemma demo_distinct: "distinct [TEXT demo_env, HTML demo_env, XML demo_env]"
  by (simp add: demo_env_def)

theorem charset_augmentation_witness:
  "(canonical demo_heap None 0 \<and> distinct [TEXT demo_env, HTML demo_env, XML demo_env])
   \<and> (\<exists>t ts r h' q. terminal demo_heap [60, 104] 16 0 t \<and> ancestry demo_heap (Some t) (t # ts)
           \<and> match demo_env demo_heap 0 [60, 104] 16 = Some (Inr (r, h')) \<and> Params h' r = Inr q
           \<and> (typ (mimes demo_heap ! t) = TEXT demo_env \<longrightarrow>
                 q = (if FromPlain demo_env [60, 104] = [] then own_params demo_heap t
                      else (own_params demo_heap t)(''charset'' \<mapsto> FromPlain demo_env [60, 104])))
           \<and> (typ (mimes demo_heap ! t) = HTML demo_env \<longrightarrow>
                 q = (if FromHTML demo_env [60, 104] = [] then own_params demo_heap t
                      else (own_params demo_heap t)(''charset'' \<mapsto> FromHTML demo_env [60, 104])))
           \<and> (typ (mimes demo_heap ! t) = XML demo_env \<longrightarrow>
                 q = (if FromXML demo_env [60, 104] = [] then own_params demo_heap t
                      else (own_params demo_heap t)(''charset'' \<mapsto> FromXML demo_env [60, 104])))
           \<and> (typ (mimes demo_heap ! t) \<notin> {TEXT demo_env, HTML demo_env, XML demo_env}
                 \<longrightarrow> q = own_params demo_heap t)
           \<and> (\<forall>i<length ts. Params h' (r + Suc i) = Inr (own_params demo_heap (ts ! i))))"
  by (rule conjI [OF conjI [OF demo_canonical demo_distinct]
        charset_augmentation [OF demo_canonical demo_distinct]])

lemma charset_heap_eq:
  "charset_heap =
     \<lparr>mimes =
        [\<lparr>typ = ''application/octet-stream'', aliases = [], params = Some 0, extension = [],
          detector = Some (\<lambda>b l. True), children = Some 2, parent = None\<rparr>,
         \<lparr>typ = ''application/x-never'', aliases = [], params = Some 1, extension = ''.nev'',
          detector = Some (\<lambda>b l. False), children = None, parent = Some 0\<rparr>,
         \<lparr>typ = ''text/plain'', aliases = [''text/x-plain''], params = Some 2, extension = ''.txt'',
          detector = Some (\<lambda>b l. True), children = Some 1, parent = Some 0\<rparr>,
         \<lparr>typ = ''text/html'', aliases = [], params = Some 3, extension = ''.html'',
          detector = Some (\<lambda>b l. take 1 b = [60]), children = None, parent = Some 2\<rparr>,
         \<lparr>typ = ''application/x-demo'', aliases = [], params = Some 4, extension = ''.demo'',
          detector = Some (\<lambda>b l. True), children = None, parent = Some 0\<rparr>],
      maps = [Map.empty, Map.empty, Map.empty, Map.empty, [''charset'' \<mapsto> ''utf-16'']],
      slices = [[1, 2], [3], [4, 1, 2]]\<rparr>"
  by (simp add: charset_heap_def Extend_def demo_env_def demo_parse_def demo_heap_def
      get_mime_def get_children_def)

lemma charset_heap_terminal: "terminal charset_heap [] 0 0 4"
proof -
  have t4: "terminal charset_heap [] 0 4 4"
    by (rule terminal_stayI [where cs = "[]"])
       (simp_all add: charset_heap_eq get_children_def)
  show ?thesis
    by (rule terminal_descendI [where pre = "[]" and c = 4 and post = "[1, 2]", OF _ _ _ _ t4])
       (simp_all add: charset_heap_eq get_mime_def get_children_def accepts_def)
qed

lemma charset_heap_ancestry: "ancestry charset_heap (Some 4) [4, 0]"
proof -
  have a0: "ancestry charset_heap (Some 0) [0]"
    by (rule ancestryI [where own = Map.empty])
       (simp_all add: charset_heap_eq get_params_def ancestry.top)
  show ?thesis
    by (rule ancestryI [where own = "[''charset'' \<mapsto> ''utf-16'']"])
       (use a0 in \<open>simp_all add: charset_heap_eq get_params_def\<close>)
qed

theorem charset_counterexample:
  "terminal charset_heap [] 0 0 4
   \<and> typ (mimes charset_heap ! 4) \<notin> {TEXT demo_env, HTML demo_env, XML demo_env}
   \<and> map_option (\<lambda>(t, als, q, e). (t, q ''charset'')) (observe (match demo_env charset_heap 0 [] 0))
       = Some (''application/x-demo'', Some ''utf-16'')"
proof -
  have "observe (match demo_env charset_heap 0 [] 0)
      = Some (''application/x-demo'', [], [''charset'' \<mapsto> ''utf-16''], ''.demo'')"
    unfolding match_result [OF charset_heap_terminal charset_heap_ancestry]
    by (simp add: observe_def with_clones_def get_mime_def Params_def get_params_def
        own_params_def optional_params_def needsCharset_def demo_env_def charset_heap_eq)
  then show ?thesis
    using charset_heap_terminal by (simp add: charset_heap_eq demo_env_def)
qed

section \<open>Extend on the store\<close>

lemma get_children_frame:
  "get_children (h\<lparr>mimes := x\<rparr>) n = get_children h n"
  "get_children (h\<lparr>maps := y\<rparr>) n = get_children h n"
  by (simp_all add: get_children_def split: option.splits)

lemma Extend_char:
  assumes "get_mime h m = Inr node" and "get_children h node = Inr old"
    and "ParseMediaType E mimestr = (t, ps, err)"
  shows "Extend E h m det mimestr ext als =
     Inr (h\<lparr>maps := (case ps of None \<Rightarrow> maps h | Some q \<Rightarrow> maps h @ [q]),
            slices := slices h @ [length (mimes h) # old],
            mimes := (mimes h @
                [\<lparr>typ = t, aliases = als,
                  params = (case ps of None \<Rightarrow> None | Some q \<Rightarrow> Some (length (maps h))),
                  extension = ext, detector = det, children = None, parent = Some m\<rparr>])
              [m := node\<lparr>children := Some (length (slices h))\<rparr>]\<rparr>)"
proof -
  have m: "m < length (mimes h)" "mimes h ! m = node"
    using assms(1) by (auto simp: get_mime_def split: if_splits)
  show ?thesis
    using m assms(2)
    by (cases ps)
       (simp_all add: Extend_def assms(3) get_mime_def get_children_frame nth_append Let_def)
qed


lemma demo_root: "get_mime demo_heap 0 = Inr (mimes demo_heap ! 0)"
  by (simp add: get_mime_def demo_heap_def)

lemma demo_root_children: "get_children demo_heap (mimes demo_heap ! 0) = Inr [1, 2]"
  by (simp add: get_children_def demo_heap_def)

text \<open>
  C9. When the type string does not parse (the parser reports an error and, as
  \<^verbatim>\<open>mime.ParseMediaType\<close> does with every error, returns a nil map), \<open>Extend\<close> still
  succeeds and returns nothing but the new store: the new node is registered in front of
  the old children of \<open>m\<close>, its type is the string the parser returned, and it has no
  parameters.
\<close>

theorem Extend_unparsed:
  assumes "ParseMediaType E mimestr = (t, None, True)"
    and "get_mime h m = Inr node" and "get_children h node = Inr old"
  shows "\<exists>h'. Extend E h m det mimestr ext als = Inr h'
    \<and> get_mime h' m = Inr (node\<lparr>children := Some (length (slices h))\<rparr>)
    \<and> get_children h' (node\<lparr>children := Some (length (slices h))\<rparr>) = Inr (length (mimes h) # old)
    \<and> Type h' (length (mimes h)) = Inr t
    \<and> Params h' (length (mimes h)) = Inr Map.empty"
proof -
  have m: "m < length (mimes h)"
    using assms(2) by (auto simp: get_mime_def split: if_splits)
  show ?thesis
    unfolding Extend_char [OF assms(2,3,1)] using m
    by (simp add: get_mime_def get_children_def Type_def Params_def get_params_def)
qed

lemma demo_unparsed: "ParseMediaType demo_env ''not a media type'' = ([], None, True)"
  by (simp add: demo_env_def demo_parse_def)

theorem Extend_unparsed_witness:
  "(ParseMediaType demo_env ''not a media type'' = ([], None, True)
    \<and> get_mime demo_heap 0 = Inr (mimes demo_heap ! 0)
    \<and> get_children demo_heap (mimes demo_heap ! 0) = Inr [1, 2])
   \<and> (\<exists>h'. Extend demo_env demo_heap 0 (Some (\<lambda>b l. True)) ''not a media type'' ''.demo'' [] = Inr h'
    \<and> get_mime h' 0 = Inr ((mimes demo_heap ! 0)\<lparr>children := Some (length (slices demo_heap))\<rparr>)
    \<and> get_children h' ((mimes demo_heap ! 0)\<lparr>children := Some (length (slices demo_heap))\<rparr>)
        = Inr (length (mimes demo_heap) # [1, 2])
    \<and> Type h' (length (mimes demo_heap)) = Inr []
    \<and> Params h' (length (mimes demo_heap)) = Inr Map.empty)"
  by (rule conjI [OF conjI [OF demo_unparsed conjI [OF demo_root demo_root_children]]
        Extend_unparsed [OF demo_unparsed demo_root demo_root_children]])

section \<open>Results are detached from the tree\<close>

lemma observe_with_clones:
  assumes "ancestry h (Some t) (t # ts)"
  shows "observe (Some (Inr (length (mimes h), with_clones h (t # ts) ps)))
     = Some (typ (mimes h ! t), aliases (mimes h ! t), own_params h t ++ ps,
             extension (mimes h ! t))"
proof -
  have b: "\<forall>a\<in>set (t # ts). a < length (mimes h)"
    using ancestry_bound [OF assms] by blast
  show ?thesis
    using with_clones_mime [of 0 "t # ts" h ps, OF _ b]
      with_clones_params [of 0 "t # ts" h ps, OF _ b]
    by (simp add: observe_def)
qed

lemma match_observe:
  assumes "canonical h None root" and "extends h h2"
  shows "observe (match E h2 root inp lim) = observe (match E h root inp lim)"
proof -
  obtain t ts where t: "terminal h inp lim root t" "ancestry h (Some t) (t # ts)"
    using canonical_terminal [OF assms(1)] by blast
  have t2: "terminal h2 inp lim root t" "ancestry h2 (Some t) (t # ts)"
    using extends_terminal [OF t(1) assms(2)] extends_ancestry [OF t(2) assms(2)] by simp_all
  obtain node own where n: "get_mime h t = Inr node" "get_params h node = Inr own"
    using t(2) by (auto elim: ancestry_ConsE)
  have nd: "mimes h ! t = node" "mimes h2 ! t = node"
    using n(1) extends_get_mime [OF assms(2) n(1)]
    by (auto simp: get_mime_def split: if_splits)
  have o: "own_params h2 t = own_params h t"
    using extends_own_params [OF assms(2) n] by simp
  show ?thesis
    unfolding match_result [OF t] match_result [OF t2]
      observe_with_clones [OF t(2)] observe_with_clones [OF t2(2)]
    by (simp add: nd o)
qed

lemma extends_update:
  assumes "extends h h1" and "length (mimes h) \<le> x"
    and "mimes h2 = (mimes h1 @ zs)[x := v]"
    and "maps h2 = maps h1 @ ms" and "slices h2 = slices h1 @ ss"
  shows "extends h h2"
proof -
  obtain xs where xs: "mimes h1 = mimes h @ xs" using assms(1) by (auto simp: extends_def)
  have "mimes h2 = mimes h @ (xs @ zs)[x - length (mimes h) := v]"
    using assms(2,3) by (simp add: xs list_update_append)
  then show ?thesis using assms(1,4,5) by (auto simp: extends_def)
qed

lemma set_param_fresh:
  assumes "extends h h2" and "get_mime h2 x = Inr xn" and "params xn = Some k"
    and "length (maps h) \<le> k" and "k < length (maps h2)"
  shows "\<exists>h3. set_param h2 x key v = Inr h3 \<and> extends h h3
          \<and> Params h3 x = Inr ((maps h2 ! k)(key \<mapsto> v))
          \<and> (\<forall>y yn k'. get_mime h2 y = Inr yn \<longrightarrow> params yn = Some k' \<longrightarrow> k' \<noteq> k
                \<longrightarrow> Params h3 y = Params h2 y)"
proof -
  define h3 where "h3 = h2\<lparr>maps := (maps h2)[k := (maps h2 ! k)(key \<mapsto> v)]\<rparr>"
  have s: "set_param h2 x key v = Inr h3"
    using assms(2,3,5) by (simp add: set_param_def h3_def)
  obtain ys where ys: "maps h2 = maps h @ ys" using assms(1) by (auto simp: extends_def)
  have "maps h3 = maps h @ ys[k - length (maps h) := (maps h2 ! k)(key \<mapsto> v)]"
    using assms(4) by (simp add: h3_def ys list_update_append)
  then have e: "extends h h3" using assms(1) by (auto simp: extends_def h3_def)
  have g: "\<And>y. get_mime h3 y = get_mime h2 y" by (simp add: get_mime_def h3_def)
  have px: "Params h3 x = Inr ((maps h2 ! k)(key \<mapsto> v))"
    unfolding Params_def g using assms(2,3,5) by (simp add: get_params_def h3_def)
  have py: "\<forall>y yn k'. get_mime h2 y = Inr yn \<longrightarrow> params yn = Some k' \<longrightarrow> k' \<noteq> k
                \<longrightarrow> Params h3 y = Params h2 y"
    unfolding Params_def g by (auto simp: get_params_def h3_def)
  show ?thesis using s e px py by blast
qed

text \<open>
  C4. Two results \<open>r1\<close> and \<open>r2\<close> of two successive matches share no map object with each
  other or with the tree. Setting a parameter on either of them succeeds, changes that
  result's parameters as asked, leaves the other result's parameters as they were, and
  leaves what every later match of any input shows (type, aliases, parameters, extension)
  as it was.
\<close>

theorem clone_independence:
  assumes "canonical h None root"
    and "match E h root inp1 lim1 = Some (Inr (r1, h1))"
    and "match E h1 root inp2 lim2 = Some (Inr (r2, h2))"
  shows "(\<exists>h3 q1. set_param h2 r1 key v = Inr h3
            \<and> Params h2 r1 = Inr q1 \<and> Params h3 r1 = Inr (q1(key \<mapsto> v))
            \<and> Params h3 r2 = Params h2 r2
            \<and> (\<forall>inp lim. observe (match E h3 root inp lim) = observe (match E h2 root inp lim)))
       \<and> (\<exists>h3 q2. set_param h2 r2 key v = Inr h3
            \<and> Params h2 r2 = Inr q2 \<and> Params h3 r2 = Inr (q2(key \<mapsto> v))
            \<and> Params h3 r1 = Params h2 r1
            \<and> (\<forall>inp lim. observe (match E h3 root inp lim) = observe (match E h2 root inp lim)))"
proof -
  obtain t1 ts1 where m1: "ancestry h (Some t1) (t1 # ts1)"
    "match E h root inp1 lim1 = Some (Inr (length (mimes h),
        with_clones h (t1 # ts1) (optional_params E (typ (mimes h ! t1)) inp1)))"
    using assms(1) by (rule canonical_match)
  let ?ps1 = "optional_params E (typ (mimes h ! t1)) inp1"
  have r1: "r1 = length (mimes h)" and h1: "h1 = with_clones h (t1 # ts1) ?ps1"
    using assms(2) m1(2) by simp_all
  have e1: "extends h h1" unfolding h1 by (rule extends_with_clones)
  have c1: "canonical h1 None root" using assms(1) e1 by (rule extends_canonical)
  obtain t2 ts2 where m2: "ancestry h1 (Some t2) (t2 # ts2)"
    "match E h1 root inp2 lim2 = Some (Inr (length (mimes h1),
        with_clones h1 (t2 # ts2) (optional_params E (typ (mimes h1 ! t2)) inp2)))"
    using c1 by (rule canonical_match)
  let ?ps2 = "optional_params E (typ (mimes h1 ! t2)) inp2"
  have r2: "r2 = length (mimes h1)" and h2: "h2 = with_clones h1 (t2 # ts2) ?ps2"
    using assms(3) m2(2) by simp_all
  have e12: "extends h1 h2" unfolding h2 by (rule extends_with_clones)
  have e2: "extends h h2" using e1 e12 by (rule extends_trans)
  have b1: "\<forall>a\<in>set (t1 # ts1). a < length (mimes h)"
    using ancestry_bound [OF m1(1)] by blast
  have b2: "\<forall>a\<in>set (t2 # ts2). a < length (mimes h1)"
    using ancestry_bound [OF m2(1)] by blast
  obtain n1 where g1: "get_mime h1 r1 = Inr n1" "params n1 = Some (length (maps h))"
    using with_clones_mime [of 0 "t1 # ts1" h ?ps1, OF _ b1] by (simp add: r1 h1)
  have g12: "get_mime h2 r1 = Inr n1" using e12 g1(1) by (rule extends_get_mime)
  obtain n2 where g2: "get_mime h2 r2 = Inr n2" "params n2 = Some (length (maps h1))"
    using with_clones_mime [of 0 "t2 # ts2" h1 ?ps2, OF _ b2] by (simp add: r2 h2)
  have l1: "length (maps h1) = Suc (length (maps h) + length ts1)"
    by (simp add: h1 with_clones_def)
  have l2: "length (maps h2) = Suc (length (maps h1) + length ts2)"
    by (simp add: h2 with_clones_def)
  have p1: "Params h2 r1 = Inr (maps h2 ! length (maps h))"
    using g12 g1(2) l1 l2 by (simp add: Params_def get_params_def)
  have p2: "Params h2 r2 = Inr (maps h2 ! length (maps h1))"
    using g2 l2 by (simp add: Params_def get_params_def)
  have obs: "\<And>h3. extends h h3 \<Longrightarrow>
      \<forall>inp lim. observe (match E h3 root inp lim) = observe (match E h2 root inp lim)"
    using match_observe [OF assms(1)] e2 by simp
  have first: "\<exists>h3 q1. set_param h2 r1 key v = Inr h3
            \<and> Params h2 r1 = Inr q1 \<and> Params h3 r1 = Inr (q1(key \<mapsto> v))
            \<and> Params h3 r2 = Params h2 r2
            \<and> (\<forall>inp lim. observe (match E h3 root inp lim) = observe (match E h2 root inp lim))"
  proof -
    have "length (maps h) < length (maps h2)" using l1 l2 by simp
    from set_param_fresh [OF e2 g12 g1(2) le_refl this, of key v]
    obtain h3 where h3: "set_param h2 r1 key v = Inr h3" "extends h h3"
      "Params h3 r1 = Inr ((maps h2 ! length (maps h))(key \<mapsto> v))"
      "\<forall>y yn k'. get_mime h2 y = Inr yn \<longrightarrow> params yn = Some k' \<longrightarrow> k' \<noteq> length (maps h)
                \<longrightarrow> Params h3 y = Params h2 y"
      by blast
    have "Params h3 r2 = Params h2 r2" using h3(4) g2 l1 by simp
    with h3(1,3) p1 obs [OF h3(2)] show ?thesis by blast
  qed
  have second: "\<exists>h3 q2. set_param h2 r2 key v = Inr h3
            \<and> Params h2 r2 = Inr q2 \<and> Params h3 r2 = Inr (q2(key \<mapsto> v))
            \<and> Params h3 r1 = Params h2 r1
            \<and> (\<forall>inp lim. observe (match E h3 root inp lim) = observe (match E h2 root inp lim))"
  proof -
    have "length (maps h1) < length (maps h2)" "length (maps h) \<le> length (maps h1)"
      using l1 l2 by simp_all
    from set_param_fresh [OF e2 g2 this(2,1), of key v]
    obtain h3 where h3: "set_param h2 r2 key v = Inr h3" "extends h h3"
      "Params h3 r2 = Inr ((maps h2 ! length (maps h1))(key \<mapsto> v))"
      "\<forall>y yn k'. get_mime h2 y = Inr yn \<longrightarrow> params yn = Some k' \<longrightarrow> k' \<noteq> length (maps h1)
                \<longrightarrow> Params h3 y = Params h2 y"
      by blast
    have "Params h3 r1 = Params h2 r1" using h3(4) g12 g1(2) l1 by simp
    with h3(1,3) p2 obs [OF h3(2)] show ?thesis by blast
  qed
  show ?thesis using first second by (rule conjI)
qed


lemma demo_terminal_plain: "terminal demo_heap [] 0 0 2"
proof -
  have t2: "terminal demo_heap [] 0 2 2"
    by (rule terminal_stayI [where cs = "[3]"])
       (simp_all add: demo_heap_def get_mime_def get_children_def rejects_def)
  show ?thesis
    by (rule terminal_descendI [where pre = "[1]" and c = 2 and post = "[]", OF _ _ _ _ t2])
       (simp_all add: demo_heap_def get_mime_def get_children_def accepts_def rejects_def)
qed

lemma demo_terminal_html: "terminal demo_heap [60, 104] 16 0 3"
proof -
  have t3: "terminal demo_heap [60, 104] 16 3 3"
    by (rule terminal_stayI [where cs = "[]"])
       (simp_all add: demo_heap_def get_children_def)
  have t2: "terminal demo_heap [60, 104] 16 2 3"
    by (rule terminal_descendI [where pre = "[]" and c = 3 and post = "[]", OF _ _ _ _ t3])
       (simp_all add: demo_heap_def get_mime_def get_children_def accepts_def)
  show ?thesis
    by (rule terminal_descendI [where pre = "[1]" and c = 2 and post = "[]", OF _ _ _ _ t2])
       (simp_all add: demo_heap_def get_mime_def get_children_def accepts_def rejects_def)
qed

lemma demo_ancestry_root: "ancestry demo_heap (Some 0) [0]"
  by (rule ancestryI [where own = Map.empty])
     (simp_all add: demo_heap_def get_params_def ancestry.top)

lemma demo_ancestry_plain: "ancestry demo_heap (Some 2) [2, 0]"
  by (rule ancestryI [where own = Map.empty])
     (use demo_ancestry_root in \<open>simp_all add: demo_heap_def get_params_def\<close>)

lemma demo_ancestry_html: "ancestry demo_heap (Some 3) [3, 2, 0]"
  by (rule ancestryI [where own = Map.empty])
     (use demo_ancestry_plain in \<open>simp_all add: demo_heap_def get_params_def\<close>)

lemma demo_match1:
  "match demo_env demo_heap 0 [] 0 = Some (Inr (length (mimes demo_heap), demo_h1))"
  unfolding demo_h1_def by (rule match_result [OF demo_terminal_plain demo_ancestry_plain])

lemma demo_extends1: "extends demo_heap demo_h1"
  unfolding demo_h1_def by (rule extends_with_clones)

lemma demo_match2:
  "match demo_env demo_h1 0 [60, 104] 16 = Some (Inr (length (mimes demo_h1), demo_h2))"
  unfolding demo_h2_def
  by (rule match_result [OF extends_terminal [OF demo_terminal_html demo_extends1]
        extends_ancestry [OF demo_ancestry_html demo_extends1]])

theorem clone_independence_witness:
  "(canonical demo_heap None 0
    \<and> match demo_env demo_heap 0 [] 0 = Some (Inr (length (mimes demo_heap), demo_h1))
    \<and> match demo_env demo_h1 0 [60, 104] 16 = Some (Inr (length (mimes demo_h1), demo_h2)))
   \<and> ((\<exists>h3 q1. set_param demo_h2 (length (mimes demo_heap)) ''charset'' ''koi8-r'' = Inr h3
            \<and> Params demo_h2 (length (mimes demo_heap)) = Inr q1
            \<and> Params h3 (length (mimes demo_heap)) = Inr (q1(''charset'' \<mapsto> ''koi8-r''))
            \<and> Params h3 (length (mimes demo_h1)) = Params demo_h2 (length (mimes demo_h1))
            \<and> (\<forall>inp lim. observe (match demo_env h3 0 inp lim)
                    = observe (match demo_env demo_h2 0 inp lim)))
       \<and> (\<exists>h3 q2. set_param demo_h2 (length (mimes demo_h1)) ''charset'' ''koi8-r'' = Inr h3
            \<and> Params demo_h2 (length (mimes demo_h1)) = Inr q2
            \<and> Params h3 (length (mimes demo_h1)) = Inr (q2(''charset'' \<mapsto> ''koi8-r''))
            \<and> Params h3 (length (mimes demo_heap)) = Params demo_h2 (length (mimes demo_heap))
            \<and> (\<forall>inp lim. observe (match demo_env h3 0 inp lim)
                    = observe (match demo_env demo_h2 0 inp lim))))"
  by (rule conjI [OF conjI [OF demo_canonical conjI [OF demo_match1 demo_match2]]
        clone_independence [OF demo_canonical demo_match1 demo_match2]])

text \<open>
  C10. Every node of the chain a match returns is a node allocated by that call, with nil
  children and no detector, and its parent pointer leads to the next node of the chain
  only. \<open>Extend\<close> on any node of the chain succeeds, writes no node of the store but that
  one, keeps the tree well formed, and leaves what every later match of any input shows
  as it was.
\<close>

theorem result_detached:
  assumes "canonical h None root" and "match E h root inp lim = Some (Inr (r, h'))"
  shows "\<exists>rs. ancestry h' (Some r) rs
      \<and> (\<forall>x\<in>set rs. length (mimes h) \<le> x
            \<and> (\<exists>xn. get_mime h' x = Inr xn \<and> children xn = None \<and> detector xn = None
                  \<and> get_children h' xn = Inr []))
      \<and> (\<forall>x\<in>set rs. \<forall>det mimestr ext als. \<exists>h''.
            Extend E h' x det mimestr ext als = Inr h''
            \<and> canonical h'' None root
            \<and> (\<forall>a<length (mimes h'). a \<noteq> x \<longrightarrow> get_mime h'' a = get_mime h' a)
            \<and> (\<forall>inp2 lim2. observe (match E h'' root inp2 lim2)
                    = observe (match E h' root inp2 lim2)))"
proof -
  obtain t ts where m: "ancestry h (Some t) (t # ts)"
    "match E h root inp lim = Some (Inr (length (mimes h),
        with_clones h (t # ts) (optional_params E (typ (mimes h ! t)) inp)))"
    using assms(1) by (rule canonical_match)
  let ?ps = "optional_params E (typ (mimes h ! t)) inp"
  let ?n = "length (mimes h)"
  let ?rs = "[?n..<?n + length (t # ts)]"
  have r: "r = ?n" and h': "h' = with_clones h (t # ts) ?ps"
    using assms(2) m(2) by simp_all
  have e: "extends h h'" unfolding h' by (rule extends_with_clones)
  have b: "\<forall>a\<in>set (t # ts). a < length (mimes h)"
    using ancestry_bound [OF m(1)] by blast
  have a: "ancestry h' (Some r) ?rs"
    unfolding r h' by (rule with_clones_ancestry) simp
  have node: "\<And>x. x \<in> set ?rs \<Longrightarrow> length (mimes h) \<le> x
            \<and> (\<exists>xn. get_mime h' x = Inr xn \<and> children xn = None \<and> detector xn = None
                  \<and> get_children h' xn = Inr [])"
  proof -
    fix x assume "x \<in> set ?rs"
    then obtain i where i: "x = ?n + i" "i < length (t # ts)"
      by (auto simp: le_iff_add)
    from with_clones_mime [OF i(2) b, of ?ps]
    show "length (mimes h) \<le> x
            \<and> (\<exists>xn. get_mime h' x = Inr xn \<and> children xn = None \<and> detector xn = None
                  \<and> get_children h' xn = Inr [])"
      by (simp add: i(1) h' get_children_def)
  qed
  have ext: "\<And>x det mimestr ext als. x \<in> set ?rs \<Longrightarrow> \<exists>h''.
            Extend E h' x det mimestr ext als = Inr h''
            \<and> canonical h'' None root
            \<and> (\<forall>a<length (mimes h'). a \<noteq> x \<longrightarrow> get_mime h'' a = get_mime h' a)
            \<and> (\<forall>inp2 lim2. observe (match E h'' root inp2 lim2)
                    = observe (match E h' root inp2 lim2))"
  proof -
    fix x det mimestr ext als assume x: "x \<in> set ?rs"
    obtain xn where xn: "length (mimes h) \<le> x" "get_mime h' x = Inr xn"
        "get_children h' xn = Inr []"
      using node [OF x] by blast
    obtain ty ps err where p: "ParseMediaType E mimestr = (ty, ps, err)"
      by (cases "ParseMediaType E mimestr") auto
    define h'' where "h'' = h'\<lparr>maps := (case ps of None \<Rightarrow> maps h' | Some q \<Rightarrow> maps h' @ [q]),
            slices := slices h' @ [length (mimes h') # []],
            mimes := (mimes h' @
                [\<lparr>typ = ty, aliases = als,
                  params = (case ps of None \<Rightarrow> None | Some q \<Rightarrow> Some (length (maps h'))),
                  extension = ext, detector = det, children = None, parent = Some x\<rparr>])
              [x := xn\<lparr>children := Some (length (slices h'))\<rparr>]\<rparr>"
    have ex: "Extend E h' x det mimestr ext als = Inr h''"
      unfolding h''_def by (rule Extend_char [OF xn(2,3) p])
    have "extends h h''"
      by (rule extends_update [OF e xn(1),
            where ms = "case ps of None \<Rightarrow> [] | Some q \<Rightarrow> [q]"])
         (simp_all add: h''_def split: option.splits)
    then have c: "canonical h'' None root"
      and o: "\<forall>inp2 lim2. observe (match E h'' root inp2 lim2)
                    = observe (match E h' root inp2 lim2)"
      using extends_canonical [OF assms(1)] match_observe [OF assms(1)] e by simp_all
    have f: "\<forall>a<length (mimes h'). a \<noteq> x \<longrightarrow> get_mime h'' a = get_mime h' a"
      by (simp add: get_mime_def h''_def nth_append)
    show "\<exists>h''. Extend E h' x det mimestr ext als = Inr h''
            \<and> canonical h'' None root
            \<and> (\<forall>a<length (mimes h'). a \<noteq> x \<longrightarrow> get_mime h'' a = get_mime h' a)
            \<and> (\<forall>inp2 lim2. observe (match E h'' root inp2 lim2)
                    = observe (match E h' root inp2 lim2))"
      using ex c f o by blast
  qed
  have n2: "\<forall>x\<in>set ?rs. length (mimes h) \<le> x
            \<and> (\<exists>xn. get_mime h' x = Inr xn \<and> children xn = None \<and> detector xn = None
                  \<and> get_children h' xn = Inr [])"
    using node by blast
  have e2: "\<forall>x\<in>set ?rs. \<forall>det mimestr ext als. \<exists>h''.
            Extend E h' x det mimestr ext als = Inr h''
            \<and> canonical h'' None root
            \<and> (\<forall>a<length (mimes h'). a \<noteq> x \<longrightarrow> get_mime h'' a = get_mime h' a)
            \<and> (\<forall>inp2 lim2. observe (match E h'' root inp2 lim2)
                    = observe (match E h' root inp2 lim2))"
    using ext by blast
  show ?thesis
    by (rule exI [of _ ?rs]) (rule conjI [OF a conjI [OF n2 e2]])
qed

theorem result_detached_witness:
  "(canonical demo_heap None 0
    \<and> match demo_env demo_heap 0 [] 0 = Some (Inr (length (mimes demo_heap), demo_h1)))
   \<and> (\<exists>rs. ancestry demo_h1 (Some (length (mimes demo_heap))) rs
      \<and> (\<forall>x\<in>set rs. length (mimes demo_heap) \<le> x
            \<and> (\<exists>xn. get_mime demo_h1 x = Inr xn \<and> children xn = None \<and> detector xn = None
                  \<and> get_children demo_h1 xn = Inr []))
      \<and> (\<forall>x\<in>set rs. \<forall>det mimestr ext als. \<exists>h''.
            Extend demo_env demo_h1 x det mimestr ext als = Inr h''
            \<and> canonical h'' None 0
            \<and> (\<forall>a<length (mimes demo_h1). a \<noteq> x \<longrightarrow> get_mime h'' a = get_mime demo_h1 a)
            \<and> (\<forall>inp2 lim2. observe (match demo_env h'' 0 inp2 lim2)
                    = observe (match demo_env demo_h1 0 inp2 lim2))))"
  by (rule conjI [OF conjI [OF demo_canonical demo_match1]
        result_detached [OF demo_canonical demo_match1]])

section \<open>The first-match descent\<close>

lemma with_detector_mime:
  "get_mime h x = Inr node \<Longrightarrow>
   get_mime (with_detector h a d) x = Inr (if x = a then node\<lparr>detector := d\<rparr> else node)"
  by (auto simp: get_mime_def with_detector_def split: if_splits)

lemma with_detector_children:
  "get_children (with_detector h a d) (if x = a then node\<lparr>detector := d\<rparr> else node)
     = get_children h node"
  by (simp add: get_children_def with_detector_def split: option.splits)

lemma with_detector_params:
  "get_params (with_detector h a d) (if x = a then node\<lparr>detector := d\<rparr> else node)
     = get_params h node"
  by (simp add: get_params_def with_detector_def split: option.splits)

lemma with_detector_accepts:
  "c \<noteq> a \<Longrightarrow> accepts (with_detector h a d) inp lim c = accepts h inp lim c"
  by (simp add: accepts_def get_mime_def with_detector_def)

lemma with_detector_rejects:
  "c \<noteq> a \<Longrightarrow> rejects (with_detector h a d) inp lim c = rejects h inp lim c"
  by (simp add: rejects_def get_mime_def with_detector_def)

lemma canonical_children:
  assumes "canonical h p m" "get_mime h m = Inr node" "get_children h node = Inr cs" "c \<in> set cs"
  shows "canonical h (Some m) c \<and> parent (mimes h ! c) = Some m"
proof -
  have c: "canonical h (Some m) c"
    using assms by (auto elim: canonical.cases)
  then have "parent (mimes h ! c) = Some m"
    by (auto elim!: canonical.cases simp: get_mime_def split: if_splits)
  then show ?thesis using c by simp
qed

lemma with_detector_terminal:
  "terminal h inp lim m t \<Longrightarrow> canonical h p m \<Longrightarrow> parent (mimes h ! root) = None \<Longrightarrow>
   terminal (with_detector h root d) inp lim m t"
proof (induction arbitrary: p rule: terminal.induct)
  case (stay h m node cs inp lim)
  have "\<forall>c\<in>set cs. c \<noteq> root"
    using canonical_children [OF stay.prems(1) stay.hyps(1,2)] stay.prems(2) by auto
  then have "\<forall>c\<in>set cs. rejects (with_detector h root d) inp lim c"
    using stay.hyps(3) by (simp add: with_detector_rejects)
  with with_detector_mime [OF stay.hyps(1)]
    with_detector_children [of h root d m node, unfolded stay.hyps(2)]
  show ?case by (rule terminal.stay)
next
  case (descend h m node pre c post inp lim t)
  have ch: "\<forall>x\<in>set (pre @ c # post). canonical h (Some m) x \<and> x \<noteq> root"
    using canonical_children [OF descend.prems(1) descend.hyps(1,2)] descend.prems(2) by auto
  have r: "\<forall>x\<in>set pre. rejects (with_detector h root d) inp lim x"
    using descend.hyps(3) ch by (simp add: with_detector_rejects)
  have a: "accepts (with_detector h root d) inp lim c"
    using descend.hyps(4) ch by (simp add: with_detector_accepts)
  have t: "terminal (with_detector h root d) inp lim c t"
    using descend.IH [of "Some m"] ch descend.prems(2) by simp
  from with_detector_mime [OF descend.hyps(1)]
    with_detector_children [of h root d m node, unfolded descend.hyps(2)] r a t
  show ?case by (rule terminal.descend)
qed

lemma with_detector_ancestry:
  "ancestry h p as \<Longrightarrow> ancestry (with_detector h root d) p as"
proof (induction rule: ancestry.induct)
  case (top h)
  show ?case by (rule ancestry.top)
next
  case (up h a node own as)
  have "ancestry (with_detector h root d)
          (parent (if a = root then node\<lparr>detector := d\<rparr> else node)) as"
    using up.IH by simp
  with with_detector_mime [OF up.hyps(1)]
    with_detector_params [of h root d a node, unfolded up.hyps(2)]
  show ?case by (rule ancestry.up)
qed

lemma with_detector_observe:
  assumes "canonical h None root"
  shows "observe (match E (with_detector h root d) root inp lim) = observe (match E h root inp lim)"
proof -
  obtain t ts where t: "terminal h inp lim root t" "ancestry h (Some t) (t # ts)"
    using canonical_terminal [OF assms] by blast
  have pr: "parent (mimes h ! root) = None"
    using assms by (auto elim!: canonical.cases simp: get_mime_def split: if_splits)
  let ?h = "with_detector h root d"
  have t2: "terminal ?h inp lim root t" "ancestry ?h (Some t) (t # ts)"
    using with_detector_terminal [OF t(1) assms pr] with_detector_ancestry [OF t(2)] by simp_all
  obtain node own where n: "get_mime h t = Inr node" "get_params h node = Inr own"
    using t(2) by (auto elim: ancestry_ConsE)
  have nd: "mimes h ! t = node"
    using n(1) by (auto simp: get_mime_def split: if_splits)
  have nd2: "mimes ?h ! t = (if t = root then node\<lparr>detector := d\<rparr> else node)"
    using with_detector_mime [OF n(1), of root d] by (auto simp: get_mime_def split: if_splits)
  have o: "own_params ?h t = own_params h t"
    using n with_detector_mime [OF n(1), of root d] with_detector_params [of h root d t node]
    by (simp add: own_params_def Params_def)
  show ?thesis
    unfolding match_result [OF t] match_result [OF t2]
      observe_with_clones [OF t(2)] observe_with_clones [OF t2(2)]
    by (simp add: nd nd2 o)
qed

text \<open>
  C1. The node \<open>match\<close> selects is the one the first-match descent of the specification
  reaches from the root, and that node is unique: the children are tried in list order,
  the first accepting child is descended into, later siblings and the root's own detector
  play no part, and a node none of whose children accepts is the terminal match. The
  result carries that node's type, aliases and extension. Replacing the root's detector
  by any other, or by nil, changes nothing in what the match shows.
\<close>

theorem match_first_match_descent:
  assumes "canonical h None root"
  shows "\<exists>t. terminal h inp lim root t \<and> (\<forall>t'. terminal h inp lim root t' \<longrightarrow> t' = t)
           \<and> (\<exists>r h' rnode. match E h root inp lim = Some (Inr (r, h'))
                 \<and> get_mime h' r = Inr rnode
                 \<and> typ rnode = typ (mimes h ! t) \<and> aliases rnode = aliases (mimes h ! t)
                 \<and> extension rnode = extension (mimes h ! t))
           \<and> (\<forall>d. observe (match E (with_detector h root d) root inp lim)
                    = observe (match E h root inp lim))"
proof -
  obtain t ts where t: "terminal h inp lim root t" "ancestry h (Some t) (t # ts)"
    "match E h root inp lim =
       Some (Inr (length (mimes h),
                  with_clones h (t # ts) (optional_params E (typ (mimes h ! t)) inp)))"
    using assms by (rule canonical_match)
  have b: "\<forall>a\<in>set (t # ts). a < length (mimes h)"
    using ancestry_bound [OF t(2)] by blast
  have u: "\<forall>t'. terminal h inp lim root t' \<longrightarrow> t' = t"
    using terminal_unique [OF t(1)] by blast
  have g: "get_mime (with_clones h (t # ts) (optional_params E (typ (mimes h ! t)) inp))
             (length (mimes h)) =
      Inr \<lparr>typ = typ (mimes h ! t), aliases = aliases (mimes h ! t),
           params = Some (length (maps h)), extension = extension (mimes h ! t),
           detector = None, children = None,
           parent = (if ts = [] then None else Some (Suc (length (mimes h))))\<rparr>"
    using with_clones_mime [of 0 "t # ts" h, OF _ b] by simp
  have "\<exists>r h' rnode. match E h root inp lim = Some (Inr (r, h'))
                 \<and> get_mime h' r = Inr rnode
                 \<and> typ rnode = typ (mimes h ! t) \<and> aliases rnode = aliases (mimes h ! t)
                 \<and> extension rnode = extension (mimes h ! t)"
    by (intro exI conjI, rule t(3), rule g) simp_all
  moreover have "\<forall>d. observe (match E (with_detector h root d) root inp lim)
                    = observe (match E h root inp lim)"
    using with_detector_observe [OF assms] by blast
  ultimately show ?thesis using t(1) u by blast
qed

theorem match_first_match_descent_witness:
  "canonical demo_heap None 0
   \<and> (\<exists>t. terminal demo_heap [60, 104] 16 0 t
           \<and> (\<forall>t'. terminal demo_heap [60, 104] 16 0 t' \<longrightarrow> t' = t)
           \<and> (\<exists>r h' rnode. match demo_env demo_heap 0 [60, 104] 16 = Some (Inr (r, h'))
                 \<and> get_mime h' r = Inr rnode
                 \<and> typ rnode = typ (mimes demo_heap ! t)
                 \<and> aliases rnode = aliases (mimes demo_heap ! t)
                 \<and> extension rnode = extension (mimes demo_heap ! t))
           \<and> (\<forall>d. observe (match demo_env (with_detector demo_heap 0 d) 0 [60, 104] 16)
                    = observe (match demo_env demo_heap 0 [60, 104] 16)))"
  by (rule conjI [OF demo_canonical match_first_match_descent [OF demo_canonical]])

section \<open>Well-formedness is kept\<close>

text \<open>
  A well-formed tree stays well formed when the store only grows (as it does in a match,
  lemma \<open>extends_canonical\<close>) and when \<open>Extend\<close> registers a node with a detector.
\<close>

lemma Extend_InrD:
  assumes "Extend E h m det mimestr ext als = Inr h'"
  obtains node old where "get_mime h m = Inr node" "get_children h node = Inr old"
proof -
  obtain t ps err where p: "ParseMediaType E mimestr = (t, ps, err)"
    by (cases "ParseMediaType E mimestr") auto
  obtain node where n: "get_mime h m = Inr node"
    using assms by (cases "get_mime h m") (auto simp: Extend_def p Let_def)
  obtain old where "get_children h node = Inr old"
    using assms n
    by (cases "get_children h node") (auto simp: Extend_def p Let_def get_children_frame split: option.splits)
  with n show thesis by (rule that)
qed

lemma Extend_canonical:
  "canonical h p x \<Longrightarrow> Extend E h m det mimestr ext als = Inr h' \<Longrightarrow> det \<noteq> None \<Longrightarrow>
   canonical h' p x"
proof (induction rule: canonical.induct)
  case (node h x node p own cs)
  obtain mnode old where mn: "get_mime h m = Inr mnode" "get_children h mnode = Inr old"
    using node.prems(1) by (rule Extend_InrD)
  obtain t ps err where ps: "ParseMediaType E mimestr = (t, ps, err)"
    by (cases "ParseMediaType E mimestr") auto
  define cnode where "cnode = \<lparr>typ = t, aliases = als,
      params = (case ps of None \<Rightarrow> None | Some q \<Rightarrow> Some (length (maps h))),
      extension = ext, detector = det, children = None, parent = Some m\<rparr>"
  define mnode' where "mnode' = mnode\<lparr>children := Some (length (slices h))\<rparr>"
  have h': "h' = h\<lparr>maps := (case ps of None \<Rightarrow> maps h | Some q \<Rightarrow> maps h @ [q]),
      slices := slices h @ [length (mimes h) # old],
      mimes := (mimes h @ [cnode])[m := mnode']\<rparr>"
    using node.prems(1) Extend_char [OF mn ps, of det ext als]
    by (simp add: cnode_def mnode'_def)
  have m: "m < length (mimes h)" "mimes h ! m = mnode"
    using mn(1) by (auto simp: get_mime_def split: if_splits)
  have x: "x < length (mimes h)" "mimes h ! x = node"
    using node.hyps(1) by (auto simp: get_mime_def split: if_splits)
  have mh: "maps h' = maps h @ (case ps of None \<Rightarrow> [] | Some q \<Rightarrow> [q])"
    by (cases ps) (simp_all add: h')
  have par: "\<And>nd. get_params h nd = Inr own \<Longrightarrow> get_params h' nd = Inr own"
    using mh by (rule get_params_grow [rotated])
  have old_child: "\<And>c. c \<in> set cs \<Longrightarrow>
      canonical h' (Some x) c \<and> detector (mimes h' ! c) \<noteq> None"
  proof -
    fix c assume c: "c \<in> set cs"
    then have cc: "canonical h (Some x) c" "canonical h' (Some x) c"
        "detector (mimes h ! c) \<noteq> None"
      using node.IH node.prems by auto
    have "c < length (mimes h)"
      using canonical_valid [OF cc(1)] by (auto simp: get_mime_def split: if_splits)
    then have "detector (mimes h' ! c) = detector (mimes h ! c)"
      using m by (auto simp: h' mnode'_def nth_append nth_list_update)
    then show "canonical h' (Some x) c \<and> detector (mimes h' ! c) \<noteq> None"
      using cc by simp
  qed
  show ?case
  proof (cases "x = m")
    case False
    have g: "get_mime h' x = Inr node"
      using x False by (simp add: get_mime_def h' nth_append)
    have c: "get_children h' node = Inr cs"
      using node.hyps(4)
      by (auto simp: get_children_def h' nth_append split: option.splits if_splits)
    from g node.hyps(2) par [OF node.hyps(3)] c show ?thesis
      by (rule canonical.node) (use old_child in blast)
  next
    case True
    have nm: "node = mnode" "cs = old"
      using True x m node.hyps(4) mn(2) by simp_all
    have g: "get_mime h' x = Inr mnode'"
      using m True by (simp add: get_mime_def h')
    have pp: "parent mnode' = p" using node.hyps(2) nm by (simp add: mnode'_def)
    have q: "get_params h' mnode' = Inr own"
      using par [OF node.hyps(3)] nm by (simp add: mnode'_def get_params_def)
    have c: "get_children h' mnode' = Inr (length (mimes h) # cs)"
      by (simp add: get_children_def mnode'_def h' nm)
    have new: "canonical h' (Some x) (length (mimes h))"
    proof (rule canonicalI [where cs = "[]"
          and own = "case ps of None \<Rightarrow> Map.empty | Some q \<Rightarrow> q"])
      show "length (mimes h) < length (mimes h')" by (simp add: h')
      show "parent (mimes h' ! length (mimes h)) = Some x"
        using m True by (simp add: h' cnode_def)
      show "get_params h' (mimes h' ! length (mimes h))
          = Inr (case ps of None \<Rightarrow> Map.empty | Some q \<Rightarrow> q)"
        using m by (simp add: h' cnode_def get_params_def split: option.splits)
      show "get_children h' (mimes h' ! length (mimes h)) = Inr []"
        using m by (simp add: h' cnode_def get_children_def)
    qed simp
    have nd: "detector (mimes h' ! length (mimes h)) \<noteq> None"
      using m node.prems(2) by (simp add: h' cnode_def)
    from g pp q c show ?thesis
      by (rule canonical.node) (use old_child new nd in auto)
  qed
qed

section \<open>Extend: the new child comes first\<close>










section \<open>Is: the comparison\<close>

lemma alias_loop_mem: "alias_loop als e = (e \<in> set als)"
  by (induction als) auto

text \<open>
  C7. When \<open>expected\<close> parses as a media type, \<open>Is\<close> holds exactly when the parsed base
  type (the parameters are dropped) is, as a string, the node's type or one of its aliases.
\<close>

theorem Is_parsed:
  assumes "ParseMediaType E expected = (t, ps, False)"
  shows "Is E m expected = (t = typ m \<or> t \<in> set (aliases m))"
  using assms by (auto simp: Is_def alias_loop_mem)

theorem Is_parsed_witness:
  "ParseMediaType demo_env ''text/html; charset=UTF-8''
     = (''text/html'', Some [''charset'' \<mapsto> ''UTF-8''], False)
   \<and> Is demo_env (plain_node\<lparr>typ := ''text/html''\<rparr>) ''text/html; charset=UTF-8''"
proof -
  have p: "ParseMediaType demo_env ''text/html; charset=UTF-8''
             = (''text/html'', Some [''charset'' \<mapsto> ''UTF-8''], False)"
    by (simp add: demo_env_def demo_parse_def)
  show ?thesis
    using p Is_parsed [OF p, of "plain_node\<lparr>typ := ''text/html''\<rparr>"] by simp
qed

text \<open>
  C8, as the code has it. When \<open>expected\<close> does not parse, \<open>Is\<close> compares the string the
  parser returned next to its error with the node's type and aliases; the string passed in
  is not used again.
\<close>

theorem Is_unparsed:
  assumes "ParseMediaType E expected = (t, ps, True)"
  shows "Is E m expected = (t = typ m \<or> t \<in> set (aliases m))"
  using assms by (auto simp: Is_def alias_loop_mem)

theorem Is_unparsed_witness:
  "ParseMediaType demo_env ''text/plain; charset'' = (''text/plain'', None, True)
   \<and> Is demo_env plain_node ''text/plain; charset''"
proof -
  have p: "ParseMediaType demo_env ''text/plain; charset'' = (''text/plain'', None, True)"
    by (simp add: demo_env_def demo_parse_def)
  show ?thesis
    using p Is_unparsed [OF p, of plain_node] by (simp add: plain_node_def)
qed

text \<open>
  The claim as the specification words it (a verbatim comparison when parsing fails) is
  false: \<^verbatim>\<open>"text/plain; charset"\<close> does not parse and is neither the type nor an alias
  of the node, yet \<open>Is\<close> accepts it.
\<close>

theorem Is_verbatim_counterexample:
  "snd (snd (ParseMediaType demo_env ''text/plain; charset''))
   \<and> Is demo_env plain_node ''text/plain; charset''
       \<noteq> (''text/plain; charset'' = typ plain_node
            \<or> ''text/plain; charset'' \<in> set (aliases plain_node))"
  by (simp add: Is_def demo_env_def demo_parse_def plain_node_def)

end
